theory Spec2Isabelle
  imports Main
begin

section \<open>Data model of \<^verbatim>\<open>src/tagManager.ts\<close>\<close>

text \<open>
  \<^verbatim>\<open>interface TagItem\<close>, \<^verbatim>\<open>interface TagGroup\<close> and \<^verbatim>\<open>interface TagDatabase\<close>.
  The field \<^verbatim>\<open>id\<close> is called \<open>tid\<close> (tags) and \<open>gid\<close> (groups), the fields
  \<^verbatim>\<open>name\<close> and \<^verbatim>\<open>tags\<close> of a group \<open>gname\<close> and \<open>gtags\<close>. An optional field
  (\<^verbatim>\<open>description?: string\<close>) is an \<open>option\<close>, \<open>None\<close> for \<^verbatim>\<open>undefined\<close>.
  Timestamps are the integers \<^verbatim>\<open>Date.now()\<close> returns. Strings are byte strings
  (UTF-8), so that a name outside ASCII is a list of several \<open>char\<close>s.
\<close>

record TagItem =
  tid :: string
  name :: string
  filePath :: string
  group :: string
  description :: "string option"
  createdAt :: int
  createdBy :: "string option"
  lastModified :: "int option"
  lastModifiedBy :: "string option"

record TagGroup =
  gid :: string
  gname :: string
  gtags :: "TagItem list"

record TagDatabase =
  db_tags :: "TagItem list"
  db_groups :: "TagGroup list"
  version :: int
  lastSync :: int

text \<open>
  \<^verbatim>\<open>class TagManager\<close>: the two maps \<^verbatim>\<open>tags: Map<string, TagItem>\<close> and
  \<^verbatim>\<open>groups: Map<string, TagGroup>\<close>, and the storage mode flag.

  A JavaScript \<^verbatim>\<open>Map\<close> iterates in insertion order, and the order is observable
  (\<^verbatim>\<open>searchTags\<close>, \<^verbatim>\<open>getTagForFile\<close>, \<^verbatim>\<open>cleanupInvalidTags\<close>), so a map is the list
  of its values in insertion order. Every \<^verbatim>\<open>set\<close> of the source stores a value under
  its own id (\<^verbatim>\<open>this.tags.set(tag.id, tag)\<close>, \<^verbatim>\<open>this.tags.set(id, tag)\<close> with
  \<^verbatim>\<open>tag.id = id\<close>, likewise for groups) and no id is ever assigned to, so the key of
  an entry is the id field of its value. A list is a \<^verbatim>\<open>Map\<close> when no key occurs twice
  (\<open>keys_distinct\<close>).

  A tag object is shared by reference between \<^verbatim>\<open>this.tags\<close> and the array of its
  group after \<^verbatim>\<open>addTag\<close>, and is a separate copy after a reload from JSON. The only
  in-place mutation of a tag is in \<^verbatim>\<open>editTag\<close>, which also assigns the mutated
  object to the array slot \<^verbatim>\<open>findIndex\<close> returns; the model holds values in both
  places and \<open>editTag\<close> writes the new value to the map entry and to that slot.
\<close>

record TagManager =
  tags :: "TagItem list"
  groups :: "TagGroup list"
  useWorkspaceStorage :: bool

definition keys_distinct :: "('a \<Rightarrow> string) \<Rightarrow> 'a list \<Rightarrow> bool" where
  "keys_distinct key m = distinct (map key m)"

text \<open>\<^verbatim>\<open>Map.prototype.get\<close>: the entry stored under the key, or \<^verbatim>\<open>undefined\<close>.\<close>

fun entry_get :: "('a \<Rightarrow> string) \<Rightarrow> 'a list \<Rightarrow> string \<Rightarrow> 'a option" where
  "entry_get key [] k = None"
| "entry_get key (x # xs) k = (if key x = k then Some x else entry_get key xs k)"

text \<open>
  \<^verbatim>\<open>Map.prototype.set\<close> with the value's own id as key: an existing key keeps its
  position and gets the new value, a new key is appended.
\<close>

fun entry_set :: "('a \<Rightarrow> string) \<Rightarrow> 'a list \<Rightarrow> 'a \<Rightarrow> 'a list" where
  "entry_set key [] v = [v]"
| "entry_set key (x # xs) v = (if key x = key v then v # xs else x # entry_set key xs v)"

text \<open>\<^verbatim>\<open>Map.prototype.delete\<close>.\<close>

definition entry_delete :: "('a \<Rightarrow> string) \<Rightarrow> 'a list \<Rightarrow> string \<Rightarrow> 'a list" where
  "entry_delete key m k = filter (\<lambda>x. key x \<noteq> k) m"

text \<open>
  Mutation of the object that \<^verbatim>\<open>get(k)\<close> returned: the first entry with key \<open>k\<close>
  becomes \<open>v\<close>, in place. The same function is the array assignment
  \<^verbatim>\<open>group.tags[group.tags.findIndex((t) => t.id === tagId)] = tag\<close>, which does nothing
  when \<^verbatim>\<open>findIndex\<close> returns \<^verbatim>\<open>-1\<close>.
\<close>

fun entry_update :: "('a \<Rightarrow> string) \<Rightarrow> 'a list \<Rightarrow> string \<Rightarrow> 'a \<Rightarrow> 'a list" where
  "entry_update key [] k v = []"
| "entry_update key (x # xs) k v = (if key x = k then v # xs else x # entry_update key xs k v)"

section \<open>The user and the environment\<close>

text \<open>
  \<^verbatim>\<open>vscode.window.showWarningMessage(text, ...items)\<close> resolves to the label the user
  chose, or to \<^verbatim>\<open>undefined\<close> when the message is dismissed. The labels of the source
  are Chinese strings; each is a constructor here, and an answer is a \<open>button option\<close>.
  \<open>Replace\<close> and \<open>Cancel\<close> are the items of the prompt of \<^verbatim>\<open>addTag\<close>;
  \<open>DeleteAll\<close>, \<open>ConfirmEach\<close>, \<open>Cancel\<close> those of the first prompt of
  \<^verbatim>\<open>cleanupInvalidTags\<close>; \<open>Delete\<close>, \<open>Keep\<close>, \<open>Cancel\<close> those of its prompt per tag.
\<close>

datatype button = Replace | Cancel | DeleteAll | ConfirmEach | Delete | Keep

text \<open>The prompts \<^verbatim>\<open>cleanupInvalidTags\<close> shows, in the order it shows them.\<close>

datatype prompt = AskCleanup nat | AskDelete TagItem

section \<open>Queries\<close>

text \<open>
  \<^verbatim>\<open>isTagNameExists(tagName, excludeTagId?)\<close>: the loop over \<^verbatim>\<open>this.tags.values()\<close>
  with its early return. \<^verbatim>\<open>tag.id !== excludeTagId\<close> is true for every tag when
  \<^verbatim>\<open>excludeTagId\<close> is \<^verbatim>\<open>undefined\<close>.
\<close>

fun nameExistsIn :: "TagItem list \<Rightarrow> string \<Rightarrow> string option \<Rightarrow> bool" where
  "nameExistsIn [] tagName excludeTagId = False"
| "nameExistsIn (tag # rest) tagName excludeTagId =
     (if name tag = tagName \<and> Some (tid tag) \<noteq> excludeTagId then True
      else nameExistsIn rest tagName excludeTagId)"

definition isTagNameExists :: "TagManager \<Rightarrow> string \<Rightarrow> string option \<Rightarrow> bool" where
  "isTagNameExists s tagName excludeTagId = nameExistsIn (tags s) tagName excludeTagId"

text \<open>\<^verbatim>\<open>getTagForFile(filePath)\<close>: the first tag, in map order, with that path.\<close>

fun firstWithPath :: "TagItem list \<Rightarrow> string \<Rightarrow> TagItem option" where
  "firstWithPath [] fp = None"
| "firstWithPath (tag # rest) fp = (if filePath tag = fp then Some tag else firstWithPath rest fp)"

definition getTagForFile :: "TagManager \<Rightarrow> string \<Rightarrow> TagItem option" where
  "getTagForFile s fp = firstWithPath (tags s) fp"

definition getAllTags :: "TagManager \<Rightarrow> TagItem list" where
  "getAllTags s = tags s"

definition getAllGroups :: "TagManager \<Rightarrow> TagGroup list" where
  "getAllGroups s = groups s"

definition getGroup :: "TagManager \<Rightarrow> string \<Rightarrow> TagGroup option" where
  "getGroup s groupId = entry_get gid (groups s) groupId"

definition getTagsByGroup :: "TagManager \<Rightarrow> string \<Rightarrow> TagItem list" where
  "getTagsByGroup s groupId =
     (case entry_get gid (groups s) groupId of Some g \<Rightarrow> gtags g | None \<Rightarrow> [])"

definition getTagsForFile :: "TagManager \<Rightarrow> string \<Rightarrow> TagItem list" where
  "getTagsForFile s fp = filter (\<lambda>tag. filePath tag = fp) (tags s)"

section \<open>Mutators\<close>

text \<open>
  Every mutator ends with \<^verbatim>\<open>await this.saveData()\<close>, which writes the two maps to the
  storage and changes neither; the storage is modelled with \<open>saveToWorkspace\<close> below.
  A mutator returns its result and the new store. A call is one step: nothing else
  runs between the \<^verbatim>\<open>await\<close>s of a call, and what a call reads from the user, the
  clock and the random generator is an argument of the function.

  \<^verbatim>\<open>removeTag(tagId)\<close>.
\<close>

definition removeTag :: "TagManager \<Rightarrow> string \<Rightarrow> bool \<times> TagManager" where
  "removeTag s tagId =
     (case entry_get tid (tags s) tagId of
        None \<Rightarrow> (False, s)
      | Some tag \<Rightarrow>
          (True,
           s\<lparr>groups :=
               (case entry_get gid (groups s) (group tag) of
                  None \<Rightarrow> groups s
                | Some g \<Rightarrow>
                    entry_update gid (groups s) (group tag)
                      (g\<lparr>gtags := filter (\<lambda>t. tid t \<noteq> tagId) (gtags g)\<rparr>)),
             tags := entry_delete tid (tags s) tagId\<rparr>))"

text \<open>
  \<^verbatim>\<open>addTag(filePath, tagName, groupId, description?)\<close>. The environment of a call:
  \<open>choice\<close>, the answer to the replacement prompt (read only when the prompt is shown);
  \<open>nid\<close>, the id built from \<^verbatim>\<open>Date.now()\<close> and \<^verbatim>\<open>Math.random()\<close>; \<open>currentUser\<close>,
  the result of \<^verbatim>\<open>getCurrentUser()\<close>; \<open>now1\<close> and \<open>now2\<close>, the two later readings of
  the clock. \<open>newTag\<close> is the object literal, \<open>insertTag\<close> the two insertions that
  follow it.
\<close>

definition newTag ::
  "string \<Rightarrow> string \<Rightarrow> int \<Rightarrow> int \<Rightarrow> string \<Rightarrow> string \<Rightarrow> string \<Rightarrow> string option \<Rightarrow> TagItem" where
  "newTag nid currentUser now1 now2 fp tagName groupId desc =
     \<lparr>tid = nid, name = tagName, filePath = fp, group = groupId, description = desc,
      createdAt = now1, createdBy = Some currentUser,
      lastModified = Some now2, lastModifiedBy = Some currentUser\<rparr>"

definition insertTag :: "TagManager \<Rightarrow> TagItem \<Rightarrow> string \<Rightarrow> TagManager" where
  "insertTag s tag groupId =
     s\<lparr>tags := entry_set tid (tags s) tag,
       groups :=
         (case entry_get gid (groups s) groupId of
            None \<Rightarrow> groups s
          | Some g \<Rightarrow> entry_update gid (groups s) groupId (g\<lparr>gtags := gtags g @ [tag]\<rparr>))\<rparr>"

definition addTag ::
  "button option \<Rightarrow> string \<Rightarrow> string \<Rightarrow> int \<Rightarrow> int \<Rightarrow>
   TagManager \<Rightarrow> string \<Rightarrow> string \<Rightarrow> string \<Rightarrow> string option \<Rightarrow> TagItem option \<times> TagManager" where
  "addTag choice nid currentUser now1 now2 s fp tagName groupId desc =
     (if isTagNameExists s tagName None then (None, s)
      else
        (case getTagForFile s fp of
           Some existingTag \<Rightarrow>
             (if choice = Some Replace then
                (let s1 = snd (removeTag s (tid existingTag));
                     tag = newTag nid currentUser now1 now2 fp tagName groupId desc
                 in (Some tag, insertTag s1 tag groupId))
              else (None, s))
         | None \<Rightarrow>
             (let tag = newTag nid currentUser now1 now2 fp tagName groupId desc
              in (Some tag, insertTag s tag groupId))))"

text \<open>
  \<^verbatim>\<open>editTag(tagId, newName, newDescription?)\<close>; \<open>now\<close> is \<^verbatim>\<open>Date.now()\<close> and
  \<open>currentUser\<close> is \<^verbatim>\<open>getCurrentUser()\<close>. \<open>editedTag\<close> is the tag after the four
  assignments.
\<close>

definition editedTag :: "int \<Rightarrow> string \<Rightarrow> TagItem \<Rightarrow> string \<Rightarrow> string option \<Rightarrow> TagItem" where
  "editedTag now currentUser tag newName newDescription =
     tag\<lparr>name := newName,
         description := (case newDescription of None \<Rightarrow> description tag | Some d \<Rightarrow> Some d),
         lastModified := Some now,
         lastModifiedBy := Some currentUser\<rparr>"

definition editTag ::
  "int \<Rightarrow> string \<Rightarrow> TagManager \<Rightarrow> string \<Rightarrow> string \<Rightarrow> string option \<Rightarrow> bool \<times> TagManager" where
  "editTag now currentUser s tagId newName newDescription =
     (case entry_get tid (tags s) tagId of
        None \<Rightarrow> (False, s)
      | Some tag \<Rightarrow>
          (if isTagNameExists s newName (Some tagId) then (False, s)
           else
             (let tag' = editedTag now currentUser tag newName newDescription
              in (True,
                  s\<lparr>tags := entry_update tid (tags s) tagId tag',
                    groups :=
                      (case entry_get gid (groups s) (group tag') of
                         None \<Rightarrow> groups s
                       | Some g \<Rightarrow>
                           entry_update gid (groups s) (group tag')
                             (g\<lparr>gtags := entry_update tid (gtags g) tagId tag'\<rparr>))\<rparr>))))"

text \<open>\<^verbatim>\<open>createGroup(name)\<close>; \<open>ngid\<close> is the generated id.\<close>

definition createGroup :: "string \<Rightarrow> TagManager \<Rightarrow> string \<Rightarrow> TagGroup \<times> TagManager" where
  "createGroup ngid s groupName =
     (let g = \<lparr>gid = ngid, gname = groupName, gtags = []\<rparr>
      in (g, s\<lparr>groups := entry_set gid (groups s) g\<rparr>))"

text \<open>
  \<^verbatim>\<open>removeGroup(groupId)\<close>: the \<^verbatim>\<open>forEach\<close> over the array of the group deletes
  from the tag map by the id of each array element.
\<close>

definition removeGroup :: "TagManager \<Rightarrow> string \<Rightarrow> bool \<times> TagManager" where
  "removeGroup s groupId =
     (case entry_get gid (groups s) groupId of
        None \<Rightarrow> (False, s)
      | Some g \<Rightarrow>
          (True,
           s\<lparr>tags := fold (\<lambda>tag m. entry_delete tid m (tid tag)) (gtags g) (tags s),
             groups := entry_delete gid (groups s) groupId\<rparr>))"

section \<open>Search\<close>





















section \<open>Cleaning up tags of missing files\<close>

text \<open>
  \<^verbatim>\<open>cleanupInvalidTags()\<close>. \<open>existsSync\<close> is \<^verbatim>\<open>fs.existsSync\<close>, \<open>choice\<close> the answer
  to the first prompt and \<open>confirm tag\<close> the answer to the prompt about \<open>tag\<close>. The
  result is the returned count, the new store and the prompts shown, in order.
  \<open>collectInvalid\<close> is the first loop, which pushes onto \<^verbatim>\<open>invalidTags\<close>;
  \<open>confirmEach\<close> is the loop of the branch that confirms one tag at a time, with its
  \<^verbatim>\<open>break\<close>.
\<close>

fun collectInvalid :: "(string \<Rightarrow> bool) \<Rightarrow> TagItem list \<Rightarrow> TagItem list \<Rightarrow> TagItem list" where
  "collectInvalid existsSync [] invalidTags = invalidTags"
| "collectInvalid existsSync (tag # rest) invalidTags =
     (if \<not> existsSync (filePath tag) then collectInvalid existsSync rest (invalidTags @ [tag])
      else collectInvalid existsSync rest invalidTags)"

fun confirmEach ::
  "(TagItem \<Rightarrow> button option) \<Rightarrow> TagItem list \<Rightarrow> nat \<Rightarrow> TagManager \<Rightarrow> prompt list \<Rightarrow>
   nat \<times> TagManager \<times> prompt list" where
  "confirmEach confirm [] deletedCount s shown = (deletedCount, s, shown)"
| "confirmEach confirm (tag # rest) deletedCount s shown =
     (if confirm tag = Some Delete then
        confirmEach confirm rest (deletedCount + 1) (snd (removeTag s (tid tag)))
          (shown @ [AskDelete tag])
      else if confirm tag = Some Cancel then (deletedCount, s, shown @ [AskDelete tag])
      else confirmEach confirm rest deletedCount s (shown @ [AskDelete tag]))"

definition cleanupInvalidTags ::
  "(string \<Rightarrow> bool) \<Rightarrow> button option \<Rightarrow> (TagItem \<Rightarrow> button option) \<Rightarrow> TagManager \<Rightarrow>
   nat \<times> TagManager \<times> prompt list" where
  "cleanupInvalidTags existsSync choice confirm s =
     (let invalidTags = collectInvalid existsSync (tags s) []
      in if length invalidTags > 0 then
           (if choice = Some DeleteAll then
              (length invalidTags,
               fold (\<lambda>tag s'. snd (removeTag s' (tid tag))) invalidTags s,
               [AskCleanup (length invalidTags)])
            else if choice = Some ConfirmEach then
              confirmEach confirm invalidTags 0 s [AskCleanup (length invalidTags)]
            else (0, s, [AskCleanup (length invalidTags)]))
         else (0, s, []))"

text \<open>
  For the statement of what the call does, in terms of the store alone: the tags whose
  file does not exist, in map order; among a list of tags, those asked about (the
  tags before the first answer \<open>Cancel\<close>, and the tag that got it) and those answered
  \<open>Delete\<close> before the first \<open>Cancel\<close>; a store without some of its tags, each gone
  from the tag map and from the array of its own group.
\<close>

definition tagsWithoutFile :: "(string \<Rightarrow> bool) \<Rightarrow> TagManager \<Rightarrow> TagItem list" where
  "tagsWithoutFile existsSync s = filter (\<lambda>tag. \<not> existsSync (filePath tag)) (tags s)"

definition askedUntilCancel :: "(TagItem \<Rightarrow> button option) \<Rightarrow> TagItem list \<Rightarrow> TagItem list" where
  "askedUntilCancel confirm xs =
     takeWhile (\<lambda>tag. confirm tag \<noteq> Some Cancel) xs @
     take 1 (dropWhile (\<lambda>tag. confirm tag \<noteq> Some Cancel) xs)"

definition deletedBeforeCancel :: "(TagItem \<Rightarrow> button option) \<Rightarrow> TagItem list \<Rightarrow> TagItem list" where
  "deletedBeforeCancel confirm xs =
     filter (\<lambda>tag. confirm tag = Some Delete)
       (takeWhile (\<lambda>tag. confirm tag \<noteq> Some Cancel) xs)"

definition withoutTags :: "TagItem list \<Rightarrow> TagGroup \<Rightarrow> TagGroup" where
  "withoutTags removed g =
     g\<lparr>gtags :=
         filter (\<lambda>t. tid t \<notin> set (map tid (filter (\<lambda>x. group x = gid g) removed))) (gtags g)\<rparr>"

definition storeWithout :: "TagItem list \<Rightarrow> TagManager \<Rightarrow> TagManager" where
  "storeWithout removed s =
     s\<lparr>tags := filter (\<lambda>tag. tag \<notin> set removed) (tags s),
       groups := map (withoutTags removed) (groups s)\<rparr>"

section \<open>The shared file\<close>

text \<open>
  The file \<^verbatim>\<open>.vscode/tag-finder.json\<close> is a \<open>TagDatabase option\<close>, \<open>None\<close> when it
  does not exist; \<^verbatim>\<open>JSON.parse\<close> is taken to return the object that
  \<^verbatim>\<open>JSON.stringify\<close> was given, and a write to succeed. \<open>hasFolders\<close> says that
  \<^verbatim>\<open>vscode.workspace.workspaceFolders\<close> is set.

  \<^verbatim>\<open>saveToWorkspace()\<close> returns the file after the call; \<open>now\<close> is \<^verbatim>\<open>Date.now()\<close>.
\<close>

definition saveToWorkspace ::
  "bool \<Rightarrow> int \<Rightarrow> TagManager \<Rightarrow> TagDatabase option \<Rightarrow> TagDatabase option" where
  "saveToWorkspace hasFolders now s file =
     (if \<not> useWorkspaceStorage s \<or> \<not> hasFolders then file
      else Some \<lparr>db_tags = tags s, db_groups = groups s, version = 1, lastSync = now\<rparr>)"

text \<open>The name of the default group, four Chinese characters, in UTF-8.\<close>

definition defaultGroupName :: string where
  "defaultGroupName =
     [CHR 0xE9, CHR 0xBB, CHR 0x98, CHR 0xE8, CHR 0xAE, CHR 0xA4,
      CHR 0xE5, CHR 0x88, CHR 0x86, CHR 0xE7, CHR 0xBB, CHR 0x84]"

text \<open>
  \<^verbatim>\<open>loadFromWorkspace()\<close>: both maps are cleared and filled from the file, and a
  default group is created when the file has no group; \<open>ngid\<close> is the id that
  \<^verbatim>\<open>createGroup\<close> would generate.
\<close>

definition loadFromWorkspace ::
  "bool \<Rightarrow> string \<Rightarrow> TagManager \<Rightarrow> TagDatabase option \<Rightarrow> TagManager" where
  "loadFromWorkspace hasFolders ngid s file =
     (if \<not> hasFolders then s
      else
        (case file of
           None \<Rightarrow> s
         | Some data \<Rightarrow>
             (let s1 = s\<lparr>tags := [], groups := []\<rparr>;
                  s2 = s1\<lparr>tags := fold (\<lambda>tag m. entry_set tid m tag) (db_tags data) (tags s1)\<rparr>;
                  s3 = s2\<lparr>groups := fold (\<lambda>g m. entry_set gid m g) (db_groups data) (groups s2)\<rparr>
              in if length (groups s3) = 0 then snd (createGroup ngid s3 defaultGroupName)
                 else s3)))"

section \<open>Sequences of operations\<close>

text \<open>A call of \<open>addTag\<close> or of \<open>editTag\<close>, with its environment and its arguments.\<close>

datatype operation =
  AddTag "button option" string string int int string string string "string option"
| EditTag int string string string "string option"

fun apply_operation :: "operation \<Rightarrow> TagManager \<Rightarrow> TagManager" where
  "apply_operation (AddTag choice nid currentUser now1 now2 fp tagName groupId desc) s =
     snd (addTag choice nid currentUser now1 now2 s fp tagName groupId desc)"
| "apply_operation (EditTag now currentUser tagId newName newDescription) s =
     snd (editTag now currentUser s tagId newName newDescription)"

fun run :: "operation list \<Rightarrow> TagManager \<Rightarrow> TagManager" where
  "run [] s = s"
| "run (x # xs) s = run xs (apply_operation x s)"

text \<open>
  The two structures are in step for a group when every tag of the map whose
  \<^verbatim>\<open>group\<close> field is the id of the group has an element with its id in the array of
  the group.
\<close>

definition group_in_step :: "TagManager \<Rightarrow> TagGroup \<Rightarrow> bool" where
  "group_in_step s g =
     list_all (\<lambda>tag. group tag = gid g \<longrightarrow> tid tag \<in> set (map tid (gtags g))) (tags s)"

section \<open>Example stores\<close>

definition tagLogin :: TagItem where
  "tagLogin =
     \<lparr>tid = ''t1'', name = ''Login'', filePath = ''/src/login.js'', group = ''g1'',
      description = Some ''User login'', createdAt = 100, createdBy = Some ''ann'',
      lastModified = Some 100, lastModifiedBy = Some ''ann''\<rparr>"

definition tagRouter :: TagItem where
  "tagRouter =
     \<lparr>tid = ''t2'', name = ''Router'', filePath = ''/src/Router.ts'', group = ''g1'',
      description = None, createdAt = 200, createdBy = Some ''bob'',
      lastModified = Some 250, lastModifiedBy = Some ''ann''\<rparr>"

definition tagNotes :: TagItem where
  "tagNotes =
     \<lparr>tid = ''t3'', name = ''Notes'', filePath = ''/doc/notes.md'', group = ''g2'',
      description = Some '''', createdAt = 300, createdBy = None,
      lastModified = None, lastModifiedBy = None\<rparr>"

definition groupA :: TagGroup where
  "groupA = \<lparr>gid = ''g1'', gname = ''A'', gtags = [tagLogin, tagRouter]\<rparr>"

definition groupB :: TagGroup where
  "groupB = \<lparr>gid = ''g2'', gname = ''B'', gtags = [tagNotes]\<rparr>"

definition store3 :: TagManager where
  "store3 = \<lparr>tags = [tagLogin, tagRouter, tagNotes], groups = [groupA, groupB],
             useWorkspaceStorage = True\<rparr>"

text \<open>The store before anything is loaded, and a store whose group array has drifted.\<close>

definition emptyStore :: TagManager where
  "emptyStore = \<lparr>tags = [], groups = [], useWorkspaceStorage = True\<rparr>"

definition driftedStore :: TagManager where
  "driftedStore =
     \<lparr>tags = [tagLogin], groups = [\<lparr>gid = ''g1'', gname = ''A'', gtags = []\<rparr>],
      useWorkspaceStorage = True\<rparr>"

definition tagLoginRenamed :: TagItem where
  "tagLoginRenamed =
     \<lparr>tid = ''t1'', name = ''Sign in'', filePath = ''/src/login.js'', group = ''g1'',
      description = Some ''User login'', createdAt = 100, createdBy = Some ''ann'',
      lastModified = Some 700, lastModifiedBy = Some ''bob''\<rparr>"

definition store3Renamed :: TagManager where
  "store3Renamed =
     \<lparr>tags = [tagLoginRenamed, tagRouter, tagNotes],
      groups = [\<lparr>gid = ''g1'', gname = ''A'', gtags = [tagLoginRenamed, tagRouter]\<rparr>, groupB],
      useWorkspaceStorage = True\<rparr>"

definition tagRouterEdited :: TagItem where
  "tagRouterEdited =
     \<lparr>tid = ''t2'', name = ''Routes'', filePath = ''/src/Router.ts'', group = ''g1'',
      description = Some '''', createdAt = 200, createdBy = Some ''bob'',
      lastModified = Some 800, lastModifiedBy = Some ''cy''\<rparr>"

definition store3Edited :: TagManager where
  "store3Edited =
     \<lparr>tags = [tagLogin, tagRouterEdited, tagNotes],
      groups = [\<lparr>gid = ''g1'', gname = ''A'', gtags = [tagLogin, tagRouterEdited]\<rparr>, groupB],
      useWorkspaceStorage = True\<rparr>"

text \<open>
  The tag list is a \<^verbatim>\<open>Map\<close> and no two of its tags have the same name (names
  are compared as strings, so case matters).
\<close>

definition names_unique :: "TagManager \<Rightarrow> bool" where
  "names_unique s = (keys_distinct tid (tags s) \<and> distinct (map name (tags s)))"

text \<open>
  Four calls on \<open>store3\<close>: an \<open>addTag\<close> with a name in use, an \<open>addTag\<close> that replaces
  the tag of a file, an \<open>editTag\<close> to a name in use and an \<open>editTag\<close> to a free name.
\<close>

definition exampleOps :: "operation list" where
  "exampleOps =
     [AddTag None ''t4'' ''ann'' 1 2 ''/x.js'' ''Login'' ''g1'' None,
      AddTag (Some Replace) ''t5'' ''ann'' 3 4 ''/src/login.js'' ''Auth'' ''g1'' None,
      EditTag 5 ''ann'' ''t2'' ''Auth'' None,
      EditTag 6 ''ann'' ''t2'' ''Login'' None]"

text \<open>
  The tag that \<open>addTag\<close> builds for \<^verbatim>\<open>/src/login.js\<close> in the examples, \<open>store3\<close> after
  that call with the replacement confirmed, and a store in which two tags have the
  same file path (as a shared file merged by hand can hold).
\<close>

definition tagAuth :: TagItem where
  "tagAuth =
     \<lparr>tid = ''t5'', name = ''Auth'', filePath = ''/src/login.js'', group = ''g1'',
      description = None, createdAt = 3, createdBy = Some ''ann'',
      lastModified = Some 4, lastModifiedBy = Some ''ann''\<rparr>"

definition store3Replaced :: TagManager where
  "store3Replaced =
     \<lparr>tags = [tagRouter, tagNotes, tagAuth],
      groups = [\<lparr>gid = ''g1'', gname = ''A'', gtags = [tagRouter, tagAuth]\<rparr>, groupB],
      useWorkspaceStorage = True\<rparr>"

definition tagLoginOld :: TagItem where
  "tagLoginOld =
     \<lparr>tid = ''t0'', name = ''Old login'', filePath = ''/src/login.js'', group = ''g1'',
      description = None, createdAt = 50, createdBy = Some ''bob'',
      lastModified = Some 50, lastModifiedBy = Some ''bob''\<rparr>"

definition storeTwoOnFile :: TagManager where
  "storeTwoOnFile =
     \<lparr>tags = [tagLoginOld, tagLogin],
      groups = [\<lparr>gid = ''g1'', gname = ''A'', gtags = [tagLoginOld, tagLogin]\<rparr>],
      useWorkspaceStorage = True\<rparr>"

text \<open>
  For the examples of \<open>cleanupInvalidTags\<close>: a disk on which only
  \<^verbatim>\<open>/src/Router.ts\<close> exists, and a user who deletes the tag \<^verbatim>\<open>t1\<close> and cancels
  at any other tag.
\<close>

definition onlyRouterExists :: "string \<Rightarrow> bool" where
  "onlyRouterExists p = (p = ''/src/Router.ts'')"

definition deleteFirstThenCancel :: "TagItem \<Rightarrow> button option" where
  "deleteFirstThenCancel tag = (if tid tag = ''t1'' then Some Delete else Some Cancel)"



section \<open>Properties of the map operations\<close>

lemmas example_defs =
  tagLogin_def tagRouter_def tagNotes_def groupA_def groupB_def store3_def emptyStore_def
  driftedStore_def tagLoginRenamed_def store3Renamed_def tagRouterEdited_def store3Edited_def

lemma entry_get_None_iff: "entry_get key m k = None \<longleftrightarrow> k \<notin> set (map key m)"
  by (induction m) auto

lemma entry_get_SomeD: "entry_get key m k = Some x \<Longrightarrow> key x = k \<and> x \<in> set m"
  by (induction m) (auto split: if_splits)

lemma entry_get_update_same:
  "entry_get key m k = Some x \<Longrightarrow> key v = k \<Longrightarrow> entry_get key (entry_update key m k v) k = Some v"
  by (induction m) (auto split: if_splits)



lemma map_key_entry_update: "key v = k \<Longrightarrow> map key (entry_update key m k v) = map key m"
  by (induction m) auto

section \<open>Editing a tag\<close>

text \<open>What a successful \<open>editTag\<close> has done.\<close>

lemma editTag_success:
  assumes "editTag now u s tagId newName newDescription = (True, s')"
  obtains tag where "entry_get tid (tags s) tagId = Some tag"
    and "\<not> isTagNameExists s newName (Some tagId)"
    and "s' = s\<lparr>tags := entry_update tid (tags s) tagId (editedTag now u tag newName newDescription),
                 groups :=
                   (case entry_get gid (groups s) (group tag) of
                      None \<Rightarrow> groups s
                    | Some g \<Rightarrow>
                        entry_update gid (groups s) (group tag)
                          (g\<lparr>gtags := entry_update tid (gtags g) tagId
                                         (editedTag now u tag newName newDescription)\<rparr>))\<rparr>"
  using assms
  by (auto simp: editTag_def Let_def editedTag_def split: option.splits if_splits)

text \<open>
  Claim C8. For an id that is not a key of the tag map, \<open>removeTag\<close> and \<open>editTag\<close>
  return \<open>False\<close> and the store they return is the store they were given; for an id that
  is not a key of the group map, so does \<open>removeGroup\<close>. The model has no exception on
  these paths, as the source has none.
\<close>

theorem unknown_id_is_silent_noop:
  "(tagId \<notin> set (map tid (tags s)) \<longrightarrow>
      removeTag s tagId = (False, s) \<and>
      editTag now currentUser s tagId newName newDescription = (False, s)) \<and>
   (groupId \<notin> set (map gid (groups s)) \<longrightarrow> removeGroup s groupId = (False, s))"
  by (simp add: removeTag_def editTag_def removeGroup_def entry_get_None_iff[symmetric]
      del: set_map)

theorem unknown_id_is_silent_noop_witness:
  "''zz'' \<notin> set (map tid (tags store3)) \<and> ''zz'' \<notin> set (map gid (groups store3)) \<and>
   removeTag store3 ''zz'' = (False, store3) \<and>
   editTag 7 ''ann'' store3 ''zz'' ''Other'' (Some ''text'') = (False, store3) \<and>
   removeGroup store3 ''zz'' = (False, store3)"
  using unknown_id_is_silent_noop
    [of "''zz''" store3 7 "''ann''" "''Other''" "Some ''text''" "''zz''"]
  by (simp add: example_defs)

text \<open>
  Claim C10. After a successful \<open>editTag\<close> the description of the tag is the one it had
  when \<open>newDescription\<close> is \<^verbatim>\<open>undefined\<close>, and is the new value when one is given,
  the empty string included.
\<close>

theorem editTag_keeps_description_unless_given:
  assumes "editTag now currentUser s tagId newName newDescription = (True, s')"
  shows "\<exists>tag tag'. entry_get tid (tags s) tagId = Some tag \<and>
           entry_get tid (tags s') tagId = Some tag' \<and>
           (newDescription = None \<longrightarrow> description tag' = description tag) \<and>
           (\<forall>d. newDescription = Some d \<longrightarrow> description tag' = Some d)"
proof -
  from assms obtain tag where g: "entry_get tid (tags s) tagId = Some tag"
    and s': "tags s' =
      entry_update tid (tags s) tagId (editedTag now currentUser tag newName newDescription)"
    by (auto elim!: editTag_success)
  have k: "tid (editedTag now currentUser tag newName newDescription) = tagId"
    using entry_get_SomeD[OF g] by (simp add: editedTag_def)
  have "entry_get tid (tags s') tagId =
      Some (editedTag now currentUser tag newName newDescription)"
    unfolding s' using g k by (simp add: entry_get_update_same)
  moreover have "newDescription = None \<longrightarrow>
      description (editedTag now currentUser tag newName newDescription) = description tag"
    by (simp add: editedTag_def)
  moreover have "\<forall>d. newDescription = Some d \<longrightarrow>
      description (editedTag now currentUser tag newName newDescription) = Some d"
    by (simp add: editedTag_def)
  ultimately show ?thesis using g by blast
qed

theorem editTag_keeps_description_unless_given_witness:
  "editTag 700 ''bob'' store3 ''t1'' ''Sign in'' None = (True, store3Renamed) \<and>
   editTag 800 ''cy'' store3 ''t2'' ''Routes'' (Some '''') = (True, store3Edited) \<and>
   (\<exists>tag tag'. entry_get tid (tags store3) ''t1'' = Some tag \<and>
      entry_get tid (tags store3Renamed) ''t1'' = Some tag' \<and>
      description tag = Some ''User login'' \<and> description tag' = Some ''User login'') \<and>
   (\<exists>tag tag'. entry_get tid (tags store3) ''t2'' = Some tag \<and>
      entry_get tid (tags store3Edited) ''t2'' = Some tag' \<and>
      description tag = None \<and> description tag' = Some '''')"
proof -
  have a: "editTag 700 ''bob'' store3 ''t1'' ''Sign in'' None = (True, store3Renamed)"
    by (simp add: editTag_def isTagNameExists_def editedTag_def Let_def example_defs)
  have b: "editTag 800 ''cy'' store3 ''t2'' ''Routes'' (Some '''') = (True, store3Edited)"
    by (simp add: editTag_def isTagNameExists_def editedTag_def Let_def example_defs)
  show ?thesis
    using a b editTag_keeps_description_unless_given [OF a]
      editTag_keeps_description_unless_given [OF b]
    by (simp add: example_defs)
qed




section \<open>Unique tag names\<close>

lemma nameExistsIn_iff:
  "nameExistsIn ts tagName excludeTagId \<longleftrightarrow>
     (\<exists>t \<in> set ts. name t = tagName \<and> Some (tid t) \<noteq> excludeTagId)"
  by (induction ts) auto

lemma tags_removeTag: "tags (snd (removeTag s tagId)) = entry_delete tid (tags s) tagId"
proof (cases "entry_get tid (tags s) tagId")
  case None
  then have "\<forall>x \<in> set (tags s). tid x \<noteq> tagId"
    by (auto simp: entry_get_None_iff)
  then have "filter (\<lambda>x. tid x \<noteq> tagId) (tags s) = tags s"
    by (simp add: filter_id_conv)
  with None show ?thesis by (simp add: removeTag_def entry_delete_def)
next
  case (Some tag)
  then show ?thesis by (simp add: removeTag_def)
qed

lemma tags_insertTag: "tags (insertTag s tag groupId) = entry_set tid (tags s) tag"
  by (simp add: insertTag_def)

lemma set_entry_set: "set (entry_set key m v) \<subseteq> insert v (set m)"
  by (induction m) auto

lemma set_entry_update: "set (entry_update key m k v) \<subseteq> insert v (set m)"
  by (induction m) auto

lemma keys_distinct_entry_set:
  "keys_distinct key m \<Longrightarrow> keys_distinct key (entry_set key m v)"
proof (induction m)
  case Nil
  then show ?case by (simp add: keys_distinct_def)
next
  case (Cons x xs)
  have "key x \<notin> key ` set (entry_set key xs v)" if "key x \<noteq> key v"
    using that Cons.prems set_entry_set[of key xs v] by (auto simp: keys_distinct_def)
  with Cons show ?case by (auto simp: keys_distinct_def)
qed

lemma keys_distinct_entry_delete:
  "keys_distinct key m \<Longrightarrow> keys_distinct key (entry_delete key m k)"
  by (simp add: keys_distinct_def entry_delete_def distinct_map_filter)

lemma keys_distinct_entry_update:
  "keys_distinct key m \<Longrightarrow> key v = k \<Longrightarrow> keys_distinct key (entry_update key m k v)"
  by (simp add: keys_distinct_def map_key_entry_update)

lemma distinct_names_entry_set:
  "distinct (map name m) \<Longrightarrow> name v \<notin> name ` set m \<Longrightarrow> distinct (map name (entry_set tid m v))"
proof (induction m)
  case Nil
  then show ?case by simp
next
  case (Cons x xs)
  have "name x \<notin> name ` set (entry_set tid xs v)"
    using Cons.prems set_entry_set[of tid xs v] by auto
  with Cons show ?case by auto
qed

lemma distinct_names_entry_update:
  "distinct (map tid m) \<Longrightarrow> distinct (map name m) \<Longrightarrow>
   \<forall>t \<in> set m. name t = name v \<longrightarrow> tid t = k \<Longrightarrow>
   distinct (map name (entry_update tid m k v))"
proof (induction m)
  case Nil
  then show ?case by simp
next
  case (Cons x xs)
  show ?case
  proof (cases "tid x = k")
    case True
    have "name v \<notin> name ` set xs"
    proof
      assume "name v \<in> name ` set xs"
      then obtain t where t: "t \<in> set xs" "name t = name v" by auto
      with Cons.prems(3) have "tid t = k" by simp
      with t(1) True have "tid x \<in> tid ` set xs" by (metis image_eqI)
      with Cons.prems(1) show False by simp
    qed
    with Cons.prems True show ?thesis by simp
  next
    case False
    have "name x \<noteq> name v" using Cons.prems False by auto
    then have "name x \<notin> name ` set (entry_update tid xs k v)"
      using Cons.prems set_entry_update[of tid xs k v] by auto
    with Cons False show ?thesis by auto
  qed
qed


lemma addTag_names_unique:
  assumes "names_unique s"
  shows "names_unique (snd (addTag choice nid u n1 n2 s fp tagName groupId desc))"
proof (cases "isTagNameExists s tagName None")
  case True
  then show ?thesis using assms by (simp add: addTag_def)
next
  case False
  then have fresh: "tagName \<notin> name ` set (tags s)"
    by (auto simp: isTagNameExists_def nameExistsIn_iff)
  define tag where "tag = newTag nid u n1 n2 fp tagName groupId desc"
  have nm: "name tag = tagName" by (simp add: tag_def newTag_def)
  have ins: "names_unique (insertTag s0 tag groupId)"
    if "names_unique s0" "set (tags s0) \<subseteq> set (tags s)" for s0
    using that fresh nm
    by (auto simp: names_unique_def tags_insertTag keys_distinct_entry_set
        intro!: distinct_names_entry_set)
  have rem: "names_unique (snd (removeTag s k))" for k
    using assms
    by (simp add: names_unique_def tags_removeTag keys_distinct_entry_delete)
       (simp add: entry_delete_def distinct_map_filter)
  have sub: "set (tags (snd (removeTag s k))) \<subseteq> set (tags s)" for k
    by (auto simp: tags_removeTag entry_delete_def)
  show ?thesis
    using False assms ins[OF assms] ins[OF rem sub]
    by (auto simp: addTag_def Let_def tag_def split: option.splits)
qed

lemma editTag_names_unique:
  assumes "names_unique s"
  shows "names_unique (snd (editTag now u s tagId newName newDescription))"
proof (cases "fst (editTag now u s tagId newName newDescription)")
  case False
  then have "snd (editTag now u s tagId newName newDescription) = s"
    by (auto simp: editTag_def Let_def split: option.splits if_splits)
  then show ?thesis using assms by simp
next
  case True
  then have "editTag now u s tagId newName newDescription =
      (True, snd (editTag now u s tagId newName newDescription))"
    by (metis prod.collapse)
  then obtain tag where g: "entry_get tid (tags s) tagId = Some tag"
    and ne: "\<not> isTagNameExists s newName (Some tagId)"
    and t': "tags (snd (editTag now u s tagId newName newDescription)) =
        entry_update tid (tags s) tagId (editedTag now u tag newName newDescription)"
    by (auto elim!: editTag_success)
  have k: "tid (editedTag now u tag newName newDescription) = tagId"
    using entry_get_SomeD[OF g] by (simp add: editedTag_def)
  have nm: "name (editedTag now u tag newName newDescription) = newName"
    by (simp add: editedTag_def)
  have "\<forall>t \<in> set (tags s). name t = newName \<longrightarrow> tid t = tagId"
    using ne by (auto simp: isTagNameExists_def nameExistsIn_iff)
  then have "distinct (map name (entry_update tid (tags s) tagId
      (editedTag now u tag newName newDescription)))"
    using assms by (intro distinct_names_entry_update) (simp_all add: names_unique_def keys_distinct_def nm)
  moreover have "keys_distinct tid (entry_update tid (tags s) tagId
      (editedTag now u tag newName newDescription))"
    using assms k by (simp add: names_unique_def keys_distinct_entry_update)
  ultimately show ?thesis
    unfolding names_unique_def t' by simp
qed

lemma run_names_unique: "names_unique s \<Longrightarrow> names_unique (run ops s)"
proof (induction ops arbitrary: s)
  case Nil
  then show ?case by simp
next
  case (Cons x xs)
  have "names_unique (apply_operation x s)"
    using Cons.prems by (cases x) (simp_all add: addTag_names_unique editTag_names_unique)
  then show ?case using Cons.IH by simp
qed

lemma addTag_duplicate_name:
  "tagName \<in> set (map name (tags s)) \<Longrightarrow>
   addTag choice nid u n1 n2 s fp tagName groupId desc = (None, s)"
  by (auto simp: addTag_def isTagNameExists_def nameExistsIn_iff)

text \<open>
  Claim C1. From a store whose tag names are pairwise distinct (the tag list being a
  \<^verbatim>\<open>Map\<close>, with no key twice), every sequence of \<open>addTag\<close> and \<open>editTag\<close> calls,
  whatever each call does, leads to a store whose tag names are pairwise distinct; and an
  \<open>addTag\<close> whose name is the name of a tag of the store returns no tag and the store
  unchanged, hence with as many tags as before.
\<close>

theorem tag_names_stay_unique:
  assumes "keys_distinct tid (tags s)" and "distinct (map name (tags s))"
  shows "distinct (map name (tags (run ops s))) \<and>
         keys_distinct tid (tags (run ops s)) \<and>
         (tagName \<in> set (map name (tags (run ops s))) \<longrightarrow>
            addTag choice nid currentUser now1 now2 (run ops s) fp tagName groupId desc
              = (None, run ops s))"
  using run_names_unique[of s ops] assms addTag_duplicate_name
  by (simp add: names_unique_def)

theorem tag_names_stay_unique_witness:
  "keys_distinct tid (tags store3) \<and> distinct (map name (tags store3)) \<and>
   map name (tags (run exampleOps store3)) = [''Login'', ''Notes'', ''Auth''] \<and>
   distinct (map name (tags (run exampleOps store3))) \<and>
   ''Auth'' \<in> set (map name (tags (run exampleOps store3))) \<and>
   addTag None ''t9'' ''ann'' 9 9 (run exampleOps store3) ''/y.js'' ''Auth'' ''g2'' None
     = (None, run exampleOps store3)"
proof -
  have a: "keys_distinct tid (tags store3)"
    by (simp add: keys_distinct_def example_defs)
  have b: "distinct (map name (tags store3))"
    by (simp add: example_defs)
  have c: "map name (tags (run exampleOps store3)) = [''Login'', ''Notes'', ''Auth'']"
    by (simp add: exampleOps_def addTag_def editTag_def removeTag_def insertTag_def newTag_def
        editedTag_def isTagNameExists_def getTagForFile_def entry_delete_def Let_def
        example_defs)
  show ?thesis
    using a b c
      tag_names_stay_unique [OF a b, of exampleOps "''Auth''" None "''t9''" "''ann''" 9 9
        "''/y.js''" "''g2''" None]
    by simp
qed

section \<open>Adding a tag\<close>

lemma entry_get_distinct:
  "keys_distinct key m \<Longrightarrow> x \<in> set m \<Longrightarrow> entry_get key m (key x) = Some x"
  by (induction m) (auto simp: keys_distinct_def)

lemma firstWithPath_SomeD:
  "firstWithPath ts fp = Some t \<Longrightarrow> t \<in> set ts \<and> filePath t = fp"
  by (induction ts) (auto split: if_splits)

lemma entry_get_entry_set: "entry_get key (entry_set key m v) (key v) = Some v"
  by (induction m) auto

lemma filter_entry_set_single:
  "filter P m = [] \<Longrightarrow> P v \<Longrightarrow> filter P (entry_set key m v) = [v]"
  by (induction m) (auto split: if_splits)

lemma filter_entry_delete_single:
  "filter P m = [x] \<Longrightarrow> filter P (entry_delete key m (key x)) = []"
proof -
  assume a: "filter P m = [x]"
  have "filter P (entry_delete key m (key x)) = filter (\<lambda>y. key y \<noteq> key x) (filter P m)"
    by (simp add: entry_delete_def conj_commute)
  with a show ?thesis by simp
qed

lemma map_gid_removeTag: "map gid (groups (snd (removeTag s tagId))) = map gid (groups s)"
proof (cases "entry_get tid (tags s) tagId")
  case None
  then show ?thesis by (simp add: removeTag_def)
next
  case (Some tag)
  show ?thesis
  proof (cases "entry_get gid (groups s) (group tag)")
    case None
    with Some show ?thesis by (simp add: removeTag_def)
  next
    case (Some g)
    with \<open>entry_get tid (tags s) tagId = Some tag\<close> entry_get_SomeD[OF Some]
    show ?thesis by (simp add: removeTag_def map_key_entry_update)
  qed
qed

lemma removeTag_present:
  assumes "keys_distinct tid (tags s)" and "tag \<in> set (tags s)"
  shows "removeTag s (tid tag) =
    (True,
     s\<lparr>groups :=
         (case entry_get gid (groups s) (group tag) of
            None \<Rightarrow> groups s
          | Some g \<Rightarrow>
              entry_update gid (groups s) (group tag)
                (g\<lparr>gtags := filter (\<lambda>t. tid t \<noteq> tid tag) (gtags g)\<rparr>)),
       tags := entry_delete tid (tags s) (tid tag)\<rparr>)"
  using entry_get_distinct[OF assms] by (simp add: removeTag_def)

lemma addTag_success:
  assumes "addTag choice nid u n1 n2 s fp tagName groupId desc = (Some tag, s')"
  obtains s1 where "tag = newTag nid u n1 n2 fp tagName groupId desc"
    and "s' = insertTag s1 tag groupId"
    and "map gid (groups s1) = map gid (groups s)"
    and "\<not> isTagNameExists s tagName None"
proof -
  define s0 where "s0 = snd (removeTag s (tid (the (getTagForFile s fp))))"
  have m0: "map gid (groups s0) = map gid (groups s)"
    by (simp add: s0_def map_gid_removeTag)
  from assms have nex: "\<not> isTagNameExists s tagName None"
    by (auto simp: addTag_def split: if_splits)
  from assms have t: "tag = newTag nid u n1 n2 fp tagName groupId desc"
    by (auto simp: addTag_def Let_def split: if_splits option.splits)
  from assms have "s' = insertTag s tag groupId \<or> s' = insertTag s0 tag groupId"
    by (auto simp: addTag_def Let_def s0_def split: if_splits option.splits)
  with that t m0 nex show ?thesis by blast
qed

text \<open>
  Claim C2, as amended. Let some tag of the store have the file path of the call, and
  let \<open>existingTag\<close> be the one \<^verbatim>\<open>getTagForFile\<close> finds. When the replacement is
  confirmed and the name is not in use, \<open>removeTag\<close> first removes \<open>existingTag\<close> from
  the tag map and from the array of its group, then the new tag is inserted and
  returned; when \<open>existingTag\<close> was the only tag with that path,
  \<open>getTagsForFile\<close> is afterwards the new tag alone. When the replacement is not
  confirmed the call returns no tag and the store unchanged.
\<close>

theorem addTag_replaces_tag_of_file:
  assumes ex: "getTagForFile s fp = Some existingTag"
  shows "(choice = Some Replace \<and> keys_distinct tid (tags s) \<and>
          tagName \<notin> set (map name (tags s)) \<longrightarrow>
           (\<exists>s1 tag.
              removeTag s (tid existingTag) = (True, s1) \<and>
              tid existingTag \<notin> set (map tid (tags s1)) \<and>
              (\<forall>g1. entry_get gid (groups s1) (group existingTag) = Some g1 \<longrightarrow>
                 tid existingTag \<notin> set (map tid (gtags g1))) \<and>
              tag = newTag nid currentUser now1 now2 fp tagName groupId desc \<and>
              addTag choice nid currentUser now1 now2 s fp tagName groupId desc
                = (Some tag, insertTag s1 tag groupId) \<and>
              entry_get tid (tags (insertTag s1 tag groupId)) nid = Some tag \<and>
              (getTagsForFile s fp = [existingTag] \<longrightarrow>
                 getTagsForFile (insertTag s1 tag groupId) fp = [tag]))) \<and>
         (choice \<noteq> Some Replace \<longrightarrow>
            addTag choice nid currentUser now1 now2 s fp tagName groupId desc = (None, s))"
proof (intro conjI impI)
  assume "choice \<noteq> Some Replace"
  then show "addTag choice nid currentUser now1 now2 s fp tagName groupId desc = (None, s)"
    using ex by (simp add: addTag_def)
next
  assume h: "choice = Some Replace \<and> keys_distinct tid (tags s) \<and>
    tagName \<notin> set (map name (tags s))"
  then have wf: "keys_distinct tid (tags s)" and fresh: "tagName \<notin> set (map name (tags s))"
    and ch: "choice = Some Replace"
    by simp_all
  have nex: "\<not> isTagNameExists s tagName None"
    using fresh by (auto simp: isTagNameExists_def nameExistsIn_iff)
  have mem: "existingTag \<in> set (tags s)" and path: "filePath existingTag = fp"
    using ex firstWithPath_SomeD by (auto simp: getTagForFile_def)
  define s1 where "s1 = snd (removeTag s (tid existingTag))"
  define tag where "tag = newTag nid currentUser now1 now2 fp tagName groupId desc"
  have r: "removeTag s (tid existingTag) = (True, s1)"
    unfolding s1_def by (simp add: removeTag_present[OF wf mem])
  have t1: "tags s1 = entry_delete tid (tags s) (tid existingTag)"
    by (simp add: s1_def tags_removeTag)
  have a: "tid existingTag \<notin> set (map tid (tags s1))"
    by (auto simp: t1 entry_delete_def)
  have b: "tid existingTag \<notin> set (map tid (gtags g1))"
    if g1: "entry_get gid (groups s1) (group existingTag) = Some g1" for g1
  proof (cases "entry_get gid (groups s) (group existingTag)")
    case None
    then have "group existingTag \<notin> set (map gid (groups s1))"
      by (simp add: s1_def map_gid_removeTag entry_get_None_iff del: set_map)
    with g1 show ?thesis by (simp add: entry_get_None_iff[symmetric] del: set_map)
  next
    case (Some g)
    define g' where "g' = g\<lparr>gtags := filter (\<lambda>t. tid t \<noteq> tid existingTag) (gtags g)\<rparr>"
    have "gid g' = group existingTag"
      using entry_get_SomeD[OF Some] by (simp add: g'_def)
    moreover have "groups s1 = entry_update gid (groups s) (group existingTag) g'"
      by (simp add: s1_def removeTag_present[OF wf mem] Some g'_def)
    ultimately have "entry_get gid (groups s1) (group existingTag) = Some g'"
      using Some by (simp add: entry_get_update_same)
    with g1 have "g1 = g'" by simp
    then show ?thesis by (auto simp: g'_def)
  qed
  have c: "addTag choice nid currentUser now1 now2 s fp tagName groupId desc
        = (Some tag, insertTag s1 tag groupId)"
    using nex ex ch by (simp add: addTag_def Let_def s1_def tag_def)
  have nid: "tid tag = nid" and tp: "filePath tag = fp"
    by (simp_all add: tag_def newTag_def)
  have d: "entry_get tid (tags (insertTag s1 tag groupId)) nid = Some tag"
    using entry_get_entry_set[of tid "tags s1" tag] by (simp add: tags_insertTag nid)
  have e: "getTagsForFile (insertTag s1 tag groupId) fp = [tag]"
    if "getTagsForFile s fp = [existingTag]"
  proof -
    have "filter (\<lambda>t. filePath t = fp) (tags s1) = []"
      using that unfolding t1 getTagsForFile_def by (rule filter_entry_delete_single)
    then show ?thesis
      unfolding getTagsForFile_def tags_insertTag
      by (rule filter_entry_set_single) (rule tp)
  qed
  from r a b c d e show "\<exists>s1 tag.
              removeTag s (tid existingTag) = (True, s1) \<and>
              tid existingTag \<notin> set (map tid (tags s1)) \<and>
              (\<forall>g1. entry_get gid (groups s1) (group existingTag) = Some g1 \<longrightarrow>
                 tid existingTag \<notin> set (map tid (gtags g1))) \<and>
              tag = newTag nid currentUser now1 now2 fp tagName groupId desc \<and>
              addTag choice nid currentUser now1 now2 s fp tagName groupId desc
                = (Some tag, insertTag s1 tag groupId) \<and>
              entry_get tid (tags (insertTag s1 tag groupId)) nid = Some tag \<and>
              (getTagsForFile s fp = [existingTag] \<longrightarrow>
                 getTagsForFile (insertTag s1 tag groupId) fp = [tag])"
    unfolding tag_def by blast
qed

lemmas addTag_defs =
  addTag_def removeTag_def insertTag_def newTag_def isTagNameExists_def getTagForFile_def
  getTagsForFile_def entry_delete_def Let_def

theorem addTag_replaces_tag_of_file_witness:
  "getTagForFile store3 ''/src/login.js'' = Some tagLogin \<and>
   keys_distinct tid (tags store3) \<and> ''Auth'' \<notin> set (map name (tags store3)) \<and>
   getTagsForFile store3 ''/src/login.js'' = [tagLogin] \<and>
   addTag (Some Replace) ''t5'' ''ann'' 3 4 store3 ''/src/login.js'' ''Auth'' ''g1'' None
     = (Some tagAuth, store3Replaced) \<and>
   getTagsForFile store3Replaced ''/src/login.js'' = [tagAuth] \<and>
   addTag (Some Cancel) ''t5'' ''ann'' 3 4 store3 ''/src/login.js'' ''Auth'' ''g1'' None
     = (None, store3)"
proof -
  have ex: "getTagForFile store3 ''/src/login.js'' = Some tagLogin"
    by (simp add: getTagForFile_def example_defs)
  have a: "addTag (Some Replace) ''t5'' ''ann'' 3 4 store3 ''/src/login.js'' ''Auth'' ''g1'' None
     = (Some tagAuth, store3Replaced)"
    by (simp add: addTag_defs example_defs tagAuth_def store3Replaced_def)
  show ?thesis
    using ex a
      addTag_replaces_tag_of_file [OF ex, of "Some Replace" "''Auth''" "''t5''" "''ann''" 3 4
        "''g1''" None]
      addTag_replaces_tag_of_file [OF ex, of "Some Cancel" "''Auth''" "''t5''" "''ann''" 3 4
        "''g1''" None]
    by (simp add: keys_distinct_def getTagsForFile_def example_defs tagAuth_def
        store3Replaced_def)
qed

text \<open>
  The claim as written fails in two ways. The name check comes first: with the name of
  a tag of the store (here the name of the very tag to be replaced) the call returns no
  tag although the replacement is confirmed, and the old tag stays. And only the first
  tag with the path is removed: in a store with two tags on the file, two tags have the
  path afterwards.
\<close>

theorem addTag_replace_counterexample:
  "getTagForFile store3 ''/src/login.js'' = Some tagLogin \<and>
   addTag (Some Replace) ''t9'' ''ann'' 1 2 store3 ''/src/login.js'' ''Login'' ''g1'' None
     = (None, store3) \<and>
   getTagsForFile store3 ''/src/login.js'' = [tagLogin] \<and>
   getTagForFile storeTwoOnFile ''/src/login.js'' = Some tagLoginOld \<and>
   fst (addTag (Some Replace) ''t5'' ''ann'' 3 4 storeTwoOnFile ''/src/login.js'' ''Auth''
          ''g1'' None) = Some tagAuth \<and>
   getTagsForFile
     (snd (addTag (Some Replace) ''t5'' ''ann'' 3 4 storeTwoOnFile ''/src/login.js'' ''Auth''
             ''g1'' None))
     ''/src/login.js'' = [tagLogin, tagAuth]"
  by (simp add: addTag_defs example_defs tagAuth_def tagLoginOld_def storeTwoOnFile_def)

text \<open>
  Claim C3, as amended. The tag a successful \<open>addTag\<close> returns has the group id of the
  call and is in the tag map. When the group id is a key of the group map at the call,
  the group is there afterwards and the new tag is the last element of its array. When
  it is not, the call succeeds all the same, and no group has that id afterwards:
  \<open>addTag\<close> does not check the group.
\<close>

theorem addTag_group_membership:
  assumes ok: "addTag choice nid currentUser now1 now2 s fp tagName groupId desc = (Some tag, s')"
  shows "group tag = groupId \<and>
         entry_get tid (tags s') (tid tag) = Some tag \<and>
         (groupId \<in> set (map gid (groups s)) \<longrightarrow>
            (\<exists>g'. entry_get gid (groups s') groupId = Some g' \<and>
                  gtags g' \<noteq> [] \<and> last (gtags g') = tag)) \<and>
         (groupId \<notin> set (map gid (groups s)) \<longrightarrow>
            entry_get gid (groups s') groupId = None)"
proof -
  from ok obtain s1 where tag: "tag = newTag nid currentUser now1 now2 fp tagName groupId desc"
    and s': "s' = insertTag s1 tag groupId"
    and keys: "map gid (groups s1) = map gid (groups s)"
    by (rule addTag_success)
  have 1: "group tag = groupId" by (simp add: tag newTag_def)
  have 2: "entry_get tid (tags s') (tid tag) = Some tag"
    by (simp add: s' tags_insertTag entry_get_entry_set)
  have 3: "\<exists>g'. entry_get gid (groups s') groupId = Some g' \<and>
                  gtags g' \<noteq> [] \<and> last (gtags g') = tag"
    if "groupId \<in> set (map gid (groups s))"
  proof -
    from that keys have "entry_get gid (groups s1) groupId \<noteq> None"
      by (simp add: entry_get_None_iff del: set_map)
    then obtain g1 where g1: "entry_get gid (groups s1) groupId = Some g1" by auto
    define g' where "g' = g1\<lparr>gtags := gtags g1 @ [tag]\<rparr>"
    have "gid g' = groupId" using entry_get_SomeD[OF g1] by (simp add: g'_def)
    moreover have "groups s' = entry_update gid (groups s1) groupId g'"
      by (simp add: s' insertTag_def g1 g'_def)
    ultimately have "entry_get gid (groups s') groupId = Some g'"
      using g1 by (simp add: entry_get_update_same)
    moreover have "gtags g' \<noteq> [] \<and> last (gtags g') = tag" by (simp add: g'_def)
    ultimately show ?thesis by blast
  qed
  have 4: "entry_get gid (groups s') groupId = None"
    if "groupId \<notin> set (map gid (groups s))"
  proof -
    from that keys have n: "entry_get gid (groups s1) groupId = None"
      by (simp add: entry_get_None_iff del: set_map)
    then have "groups s' = groups s1" by (simp add: s' insertTag_def)
    with n show ?thesis by simp
  qed
  from 1 2 3 4 show ?thesis by blast
qed

theorem addTag_group_membership_witness:
  "addTag (Some Replace) ''t5'' ''ann'' 3 4 store3 ''/src/login.js'' ''Auth'' ''g1'' None
     = (Some tagAuth, store3Replaced) \<and>
   ''g1'' \<in> set (map gid (groups store3)) \<and> group tagAuth = ''g1'' \<and>
   (\<exists>g'. entry_get gid (groups store3Replaced) ''g1'' = Some g' \<and> last (gtags g') = tagAuth) \<and>
   addTag None ''t5'' ''ann'' 3 4 emptyStore ''/src/login.js'' ''Auth'' ''g1'' None
     = (Some tagAuth, emptyStore\<lparr>tags := [tagAuth]\<rparr>) \<and>
   ''g1'' \<notin> set (map gid (groups emptyStore)) \<and>
   entry_get gid (groups (emptyStore\<lparr>tags := [tagAuth]\<rparr>)) ''g1'' = None"
proof -
  have a: "addTag (Some Replace) ''t5'' ''ann'' 3 4 store3 ''/src/login.js'' ''Auth'' ''g1'' None
     = (Some tagAuth, store3Replaced)"
    by (simp add: addTag_defs example_defs tagAuth_def store3Replaced_def)
  have b: "addTag None ''t5'' ''ann'' 3 4 emptyStore ''/src/login.js'' ''Auth'' ''g1'' None
     = (Some tagAuth, emptyStore\<lparr>tags := [tagAuth]\<rparr>)"
    by (simp add: addTag_defs example_defs tagAuth_def)
  show ?thesis
    using a b addTag_group_membership [OF a] addTag_group_membership [OF b]
    by (simp add: example_defs tagAuth_def store3Replaced_def)
qed

text \<open>
  The claim as written fails: on the empty store, which has no group, \<open>addTag\<close> with
  the group id \<^verbatim>\<open>g1\<close> returns a tag whose group is \<^verbatim>\<open>g1\<close>.
\<close>

theorem addTag_unknown_group_counterexample:
  "getGroup emptyStore ''g1'' = None \<and>
   addTag None ''t5'' ''ann'' 3 4 emptyStore ''/src/login.js'' ''Auth'' ''g1'' None
     = (Some tagAuth, \<lparr>tags = [tagAuth], groups = [], useWorkspaceStorage = True\<rparr>) \<and>
   group tagAuth = ''g1''"
  by (simp add: addTag_defs getGroup_def example_defs tagAuth_def)

section \<open>Removing a group\<close>

lemma fold_entry_delete:
  "fold (\<lambda>x m. entry_delete key m (key x)) xs m = filter (\<lambda>t. key t \<notin> set (map key xs)) m"
proof (induction xs arbitrary: m)
  case Nil
  then show ?case by simp
next
  case (Cons x xs)
  have "filter (\<lambda>t. key t \<notin> set (map key xs)) (entry_delete key m (key x)) =
        filter (\<lambda>t. key t \<notin> set (map key (x # xs))) m"
    by (auto simp: entry_delete_def intro: filter_cong)
  with Cons.IH[of "entry_delete key m (key x)"] show ?case by simp
qed

text \<open>
  Claim C4, as amended. For a group id that is a key of the group map, \<open>removeGroup\<close>
  succeeds, deletes from the tag map every tag whose id is the id of an element of the
  array of the group, and deletes the group. When the two structures are in step for
  the group (every tag of the map whose \<^verbatim>\<open>group\<close> field is the id has an element with
  its id in the array), no tag that remains has the id of the group in its
  \<^verbatim>\<open>group\<close> field.
\<close>

theorem removeGroup_cascades:
  assumes g: "entry_get gid (groups s) groupId = Some g"
  shows "\<exists>s'. removeGroup s groupId = (True, s') \<and>
           tags s' = filter (\<lambda>t. tid t \<notin> set (map tid (gtags g))) (tags s) \<and>
           (\<forall>t \<in> set (gtags g). tid t \<notin> set (map tid (tags s'))) \<and>
           groups s' = filter (\<lambda>h. gid h \<noteq> groupId) (groups s) \<and>
           groupId \<notin> set (map gid (groups s')) \<and>
           (group_in_step s g \<longrightarrow> (\<forall>t \<in> set (tags s'). group t \<noteq> groupId))"
proof -
  define s' where "s' = snd (removeGroup s groupId)"
  have r: "removeGroup s groupId = (True, s')"
    using g by (simp add: removeGroup_def s'_def)
  have t: "tags s' = filter (\<lambda>t. tid t \<notin> set (map tid (gtags g))) (tags s)"
    using g by (simp add: removeGroup_def s'_def fold_entry_delete del: set_map)
  have gs: "groups s' = filter (\<lambda>h. gid h \<noteq> groupId) (groups s)"
    using g by (simp add: removeGroup_def s'_def entry_delete_def)
  have a: "\<forall>t \<in> set (gtags g). tid t \<notin> set (map tid (tags s'))"
    unfolding t by (auto simp: image_iff) metis
  have b: "groupId \<notin> set (map gid (groups s'))"
    unfolding gs by auto
  have c: "\<forall>t \<in> set (tags s'). group t \<noteq> groupId" if "group_in_step s g"
  proof
    fix t assume "t \<in> set (tags s')"
    then have m: "t \<in> set (tags s)" and n: "tid t \<notin> set (map tid (gtags g))"
      unfolding t by auto
    from that m have "group t = gid g \<longrightarrow> tid t \<in> set (map tid (gtags g))"
      unfolding group_in_step_def list_all_iff by blast
    with n entry_get_SomeD[OF g] show "group t \<noteq> groupId" by auto
  qed
  from r t a gs b c show ?thesis by blast
qed

theorem removeGroup_cascades_witness:
  "entry_get gid (groups store3) ''g1'' = Some groupA \<and> group_in_step store3 groupA \<and>
   removeGroup store3 ''g1''
     = (True, \<lparr>tags = [tagNotes], groups = [groupB], useWorkspaceStorage = True\<rparr>) \<and>
   map group [tagNotes] = [''g2'']"
proof -
  have a: "entry_get gid (groups store3) ''g1'' = Some groupA"
    by (simp add: example_defs)
  have b: "removeGroup store3 ''g1''
     = (True, \<lparr>tags = [tagNotes], groups = [groupB], useWorkspaceStorage = True\<rparr>)"
    by (simp add: removeGroup_def entry_delete_def example_defs)
  show ?thesis
    using a b removeGroup_cascades [OF a]
    by (simp add: group_in_step_def example_defs)
qed

text \<open>
  The claim as written fails on a store whose array has drifted from the tag map, as a
  shared file can be: the tag \<^verbatim>\<open>t1\<close> has the group \<^verbatim>\<open>g1\<close>, the array of
  \<^verbatim>\<open>g1\<close> is empty, and after \<open>removeGroup\<close> the tag is still in the map.
\<close>

theorem removeGroup_orphan_counterexample:
  "getGroup driftedStore ''g1'' = Some \<lparr>gid = ''g1'', gname = ''A'', gtags = []\<rparr> \<and>
   removeGroup driftedStore ''g1''
     = (True, \<lparr>tags = [tagLogin], groups = [], useWorkspaceStorage = True\<rparr>) \<and>
   group tagLogin = ''g1''"
  by (simp add: removeGroup_def getGroup_def entry_delete_def example_defs)

section \<open>Saving and reloading\<close>

lemma entry_set_fresh: "key v \<notin> set (map key m) \<Longrightarrow> entry_set key m v = m @ [v]"
  by (induction m) auto

lemma fold_entry_set_distinct:
  "keys_distinct key (m @ xs) \<Longrightarrow> fold (\<lambda>x acc. entry_set key acc x) xs m = m @ xs"
proof (induction xs arbitrary: m)
  case Nil
  then show ?case by simp
next
  case (Cons x xs)
  from Cons.prems have fresh: "key x \<notin> set (map key m)"
    by (auto simp: keys_distinct_def)
  from Cons.prems have "keys_distinct key ((m @ [x]) @ xs)" by simp
  from Cons.IH[OF this] fresh show ?case by (simp add: entry_set_fresh)
qed

text \<open>
  Claim C7, as amended. In shared mode with a workspace folder \<open>saveToWorkspace\<close>
  writes the tags and the groups of the store, and \<open>loadFromWorkspace\<close> of that file,
  in any manager, gives back the same tags in the same order, with all their fields;
  it gives back the same groups, arrays included, when the store has a group, and one
  new default group when it has none. The lists of the store are \<^verbatim>\<open>Map\<close>s, with no
  key twice.
\<close>

theorem save_load_roundtrip:
  assumes mode: "useWorkspaceStorage s \<and> hasFolders"
    and wf: "keys_distinct tid (tags s) \<and> keys_distinct gid (groups s)"
  shows "saveToWorkspace hasFolders now s file
           = Some \<lparr>db_tags = tags s, db_groups = groups s, version = 1, lastSync = now\<rparr> \<and>
         tags (loadFromWorkspace hasFolders ngid s0 (saveToWorkspace hasFolders now s file))
           = tags s \<and>
         (groups s \<noteq> [] \<longrightarrow>
            groups (loadFromWorkspace hasFolders ngid s0 (saveToWorkspace hasFolders now s file))
              = groups s) \<and>
         (groups s = [] \<longrightarrow>
            groups (loadFromWorkspace hasFolders ngid s0 (saveToWorkspace hasFolders now s file))
              = [\<lparr>gid = ngid, gname = defaultGroupName, gtags = []\<rparr>])"
proof -
  have sv: "saveToWorkspace hasFolders now s file
      = Some \<lparr>db_tags = tags s, db_groups = groups s, version = 1, lastSync = now\<rparr>"
    using mode by (simp add: saveToWorkspace_def)
  have ft: "fold (\<lambda>tag m. entry_set tid m tag) (tags s) [] = tags s"
    using wf fold_entry_set_distinct[of tid "[]" "tags s"] by simp
  have fg: "fold (\<lambda>g m. entry_set gid m g) (groups s) [] = groups s"
    using wf fold_entry_set_distinct[of gid "[]" "groups s"] by simp
  have 1: "tags (loadFromWorkspace hasFolders ngid s0 (saveToWorkspace hasFolders now s file))
           = tags s"
    unfolding sv using mode by (simp add: loadFromWorkspace_def Let_def ft fg createGroup_def)
  have 2: "groups (loadFromWorkspace hasFolders ngid s0 (saveToWorkspace hasFolders now s file))
              = groups s" if "groups s \<noteq> []"
    unfolding sv using mode that by (simp add: loadFromWorkspace_def Let_def ft fg)
  have 3: "groups (loadFromWorkspace hasFolders ngid s0 (saveToWorkspace hasFolders now s file))
              = [\<lparr>gid = ngid, gname = defaultGroupName, gtags = []\<rparr>]" if "groups s = []"
    unfolding sv using mode that
    by (simp add: loadFromWorkspace_def Let_def ft createGroup_def)
  from sv 1 2 3 show ?thesis by blast
qed

theorem save_load_roundtrip_witness:
  "useWorkspaceStorage store3 \<and> keys_distinct tid (tags store3) \<and>
   keys_distinct gid (groups store3) \<and> groups store3 \<noteq> [] \<and>
   loadFromWorkspace True ''g9'' emptyStore (saveToWorkspace True 5 store3 None) = store3"
proof -
  have a: "useWorkspaceStorage store3 \<and> True"
    by (simp add: example_defs)
  have b: "keys_distinct tid (tags store3) \<and> keys_distinct gid (groups store3)"
    by (simp add: keys_distinct_def example_defs)
  have c: "groups store3 \<noteq> []"
    by (simp add: example_defs)
  have d: "useWorkspaceStorage
      (loadFromWorkspace True ''g9'' emptyStore (saveToWorkspace True 5 store3 None))"
    by (simp add: loadFromWorkspace_def saveToWorkspace_def Let_def example_defs)
  let ?L = "loadFromWorkspace True ''g9'' emptyStore (saveToWorkspace True 5 store3 None)"
  from save_load_roundtrip [OF a b, of 5 None "''g9''" emptyStore] c
  have t: "tags ?L = tags store3" and g: "groups ?L = groups store3"
    by blast+
  have "?L = store3"
    using t g d a by (intro TagManager.equality) simp_all
  with a b c show ?thesis by simp
qed

text \<open>
  The claim as written fails on a store without groups (as \<open>removeGroup\<close> of the last
  group leaves it): the file has no group and the reload creates the default group.
\<close>

theorem save_load_default_group_counterexample:
  "saveToWorkspace True 5 emptyStore None
     = Some \<lparr>db_tags = [], db_groups = [], version = 1, lastSync = 5\<rparr> \<and>
   groups emptyStore = [] \<and>
   groups (loadFromWorkspace True ''g9'' emptyStore (saveToWorkspace True 5 emptyStore None))
     = [\<lparr>gid = ''g9'', gname = defaultGroupName, gtags = []\<rparr>]"
  by (simp add: saveToWorkspace_def loadFromWorkspace_def createGroup_def Let_def example_defs)

section \<open>Searching\<close>






















section \<open>Cleaning up\<close>

lemma filter_by_key:
  assumes "keys_distinct key m" and "set xs \<subseteq> set m"
  shows "filter (\<lambda>t. key t \<notin> set (map key xs)) m = filter (\<lambda>t. t \<notin> set xs) m"
proof (rule filter_cong[OF refl])
  fix t assume t: "t \<in> set m"
  have inj: "inj_on key (set m)"
    using assms(1) by (simp add: keys_distinct_def distinct_map)
  show "(key t \<notin> set (map key xs)) = (t \<notin> set xs)"
  proof
    assume "key t \<notin> set (map key xs)"
    then show "t \<notin> set xs" by auto
  next
    assume n: "t \<notin> set xs"
    show "key t \<notin> set (map key xs)"
    proof
      assume "key t \<in> set (map key xs)"
      then obtain x where x: "x \<in> set xs" "key x = key t" by auto
      with assms(2) have "x \<in> set m" by auto
      with inj t x(2) have "x = t" by (auto dest: inj_onD)
      with x(1) n show False by simp
    qed
  qed
qed

lemma length_filter_removed:
  assumes "distinct m" and "distinct xs" and "set xs \<subseteq> set m"
  shows "length (filter (\<lambda>t. t \<notin> set xs) m) + length xs = length m"
proof -
  have "length (filter (\<lambda>t. t \<notin> set xs) m) = card (set m - set xs)"
    using assms(1) by (simp add: distinct_card[symmetric] set_diff_eq)
  moreover have "card (set m - set xs) = card (set m) - card (set xs)"
    using assms(3) by (simp add: card_Diff_subset)
  moreover have "card (set xs) \<le> card (set m)"
    using assms(3) by (simp add: card_mono)
  ultimately show ?thesis
    using assms(1,2) by (simp add: distinct_card)
qed

lemma confirmEach_result:
  "confirmEach confirm xs n s shown =
     (n + length (deletedBeforeCancel confirm xs),
      fold (\<lambda>tag s'. snd (removeTag s' (tid tag))) (deletedBeforeCancel confirm xs) s,
      shown @ map AskDelete (askedUntilCancel confirm xs))"
proof (induction xs arbitrary: n s shown)
  case Nil
  then show ?case by (simp add: deletedBeforeCancel_def askedUntilCancel_def)
next
  case (Cons x xs)
  show ?case
  proof (cases "confirm x = Some Delete")
    case True
    then show ?thesis
      using Cons.IH by (simp add: deletedBeforeCancel_def askedUntilCancel_def)
  next
    case False
    show ?thesis
    proof (cases "confirm x = Some Cancel")
      case True
      then show ?thesis by (simp add: deletedBeforeCancel_def askedUntilCancel_def)
    next
      case False
      with \<open>confirm x \<noteq> Some Delete\<close> show ?thesis
        using Cons.IH by (simp add: deletedBeforeCancel_def askedUntilCancel_def)
    qed
  qed
qed

lemma keys_distinct_imp_distinct: "keys_distinct key m \<Longrightarrow> distinct m"
  by (simp add: keys_distinct_def distinct_map)

lemma collectInvalid_eq:
  "collectInvalid existsSync xs acc = acc @ filter (\<lambda>tag. \<not> existsSync (filePath tag)) xs"
  by (induction xs arbitrary: acc) auto

lemma entry_update_as_map:
  "keys_distinct key m \<Longrightarrow> entry_get key m k = Some g \<Longrightarrow>
   entry_update key m k (f g) = map (\<lambda>h. if key h = k then f h else h) m"
proof (induction m)
  case Nil
  then show ?case by simp
next
  case (Cons x xs)
  show ?case
  proof (cases "key x = k")
    case True
    with Cons.prems have "g = x" and "k \<notin> set (map key xs)"
      by (auto simp: keys_distinct_def)
    then have "map (\<lambda>h. if key h = k then f h else h) xs = xs"
      by (intro map_idI) auto
    with True \<open>g = x\<close> show ?thesis by simp
  next
    case False
    with Cons show ?thesis by (simp add: keys_distinct_def)
  qed
qed

lemma withoutTags_single:
  "withoutTags [x] g =
     (if gid g = group x then g\<lparr>gtags := filter (\<lambda>t. tid t \<noteq> tid x) (gtags g)\<rparr> else g)"
  by (simp add: withoutTags_def)

lemma withoutTags_Nil: "withoutTags [] g = g"
  by (simp add: withoutTags_def)

lemma withoutTags_Cons: "withoutTags xs (withoutTags [x] g) = withoutTags (x # xs) g"
  by (auto simp: withoutTags_def intro: filter_cong)

lemma storeWithout_Nil: "storeWithout [] s = s"
proof -
  have "map (withoutTags []) (groups s) = groups s"
    by (intro map_idI) (simp add: withoutTags_Nil)
  then show ?thesis by (simp add: storeWithout_def)
qed

lemma storeWithout_Cons: "storeWithout xs (storeWithout [x] s) = storeWithout (x # xs) s"
proof -
  have "filter (\<lambda>tag. tag \<notin> set xs) (filter (\<lambda>tag. tag \<notin> set [x]) (tags s))
      = filter (\<lambda>tag. tag \<notin> set (x # xs)) (tags s)"
    by (auto intro: filter_cong)
  moreover have "map (withoutTags xs) (map (withoutTags [x]) (groups s))
      = map (withoutTags (x # xs)) (groups s)"
    by (simp add: withoutTags_Cons)
  ultimately show ?thesis by (simp add: storeWithout_def)
qed

lemma removeTag_storeWithout:
  assumes t: "keys_distinct tid (tags s)" and g: "keys_distinct gid (groups s)"
    and x: "x \<in> set (tags s)"
  shows "snd (removeTag s (tid x)) = storeWithout [x] s"
proof -
  have tg: "entry_delete tid (tags s) (tid x) = filter (\<lambda>tag. tag \<notin> set [x]) (tags s)"
    using filter_by_key[OF t, of "[x]"] x by (simp add: entry_delete_def)
  have gr: "(case entry_get gid (groups s) (group x) of
               None \<Rightarrow> groups s
             | Some h \<Rightarrow>
                 entry_update gid (groups s) (group x)
                   (h\<lparr>gtags := filter (\<lambda>t. tid t \<noteq> tid x) (gtags h)\<rparr>))
      = map (withoutTags [x]) (groups s)"
  proof (cases "entry_get gid (groups s) (group x)")
    case None
    then have "group x \<notin> gid ` set (groups s)"
      by (simp add: entry_get_None_iff)
    then have "\<forall>h \<in> set (groups s). gid h \<noteq> group x"
      by (metis image_eqI)
    then have "map (withoutTags [x]) (groups s) = groups s"
      by (intro map_idI) (simp add: withoutTags_single)
    with None show ?thesis by simp
  next
    case (Some h)
    have "entry_update gid (groups s) (group x)
            ((\<lambda>h. h\<lparr>gtags := filter (\<lambda>t. tid t \<noteq> tid x) (gtags h)\<rparr>) h)
        = map (\<lambda>h. if gid h = group x
                    then (\<lambda>h. h\<lparr>gtags := filter (\<lambda>t. tid t \<noteq> tid x) (gtags h)\<rparr>) h
                    else h) (groups s)"
      using g Some by (rule entry_update_as_map)
    also have "\<dots> = map (withoutTags [x]) (groups s)"
      by (rule map_cong) (simp_all add: withoutTags_single)
    finally show ?thesis using Some by simp
  qed
  show ?thesis
    unfolding removeTag_present[OF t x] storeWithout_def by (simp add: tg gr)
qed

lemma fold_removeTag_storeWithout:
  "keys_distinct tid (tags s) \<Longrightarrow> keys_distinct gid (groups s) \<Longrightarrow> distinct xs \<Longrightarrow>
   set xs \<subseteq> set (tags s) \<Longrightarrow>
   fold (\<lambda>tag s'. snd (removeTag s' (tid tag))) xs s = storeWithout xs s"
proof (induction xs arbitrary: s)
  case Nil
  then show ?case by (simp add: storeWithout_Nil)
next
  case (Cons x xs)
  define s1 where "s1 = storeWithout [x] s"
  have r: "snd (removeTag s (tid x)) = s1"
    unfolding s1_def using Cons.prems by (intro removeTag_storeWithout) simp_all
  have t1: "keys_distinct tid (tags s1)"
    using Cons.prems(1) by (simp add: s1_def storeWithout_def keys_distinct_def distinct_map_filter)
  have "gid \<circ> withoutTags [x] = gid"
    by (rule ext) (simp add: withoutTags_def)
  then have g1: "keys_distinct gid (groups s1)"
    using Cons.prems(2) by (simp add: s1_def storeWithout_def keys_distinct_def)
  have sub: "set xs \<subseteq> set (tags s1)"
    using Cons.prems(3,4) by (auto simp: s1_def storeWithout_def)
  have d: "distinct xs" using Cons.prems(3) by simp
  have "fold (\<lambda>tag s'. snd (removeTag s' (tid tag))) xs s1 = storeWithout xs s1"
    using t1 g1 d sub by (rule Cons.IH)
  then show ?case by (simp add: r s1_def storeWithout_Cons)
qed

lemma cleanup_delete_all:
  assumes t: "keys_distinct tid (tags s)" and g: "keys_distinct gid (groups s)"
    and ne: "\<exists>tag \<in> set (tags s). \<not> existsSync (filePath tag)"
  shows "cleanupInvalidTags existsSync (Some DeleteAll) confirm s
           = (length (tagsWithoutFile existsSync s),
              storeWithout (tagsWithoutFile existsSync s) s,
              [AskCleanup (length (tagsWithoutFile existsSync s))])"
    and "tags (storeWithout (tagsWithoutFile existsSync s) s)
           = filter (\<lambda>tag. existsSync (filePath tag)) (tags s)"
    and "length (tags (storeWithout (tagsWithoutFile existsSync s) s))
           + length (tagsWithoutFile existsSync s) = length (tags s)"
proof -
  define inv where "inv = tagsWithoutFile existsSync s"
  have c: "collectInvalid existsSync (tags s) [] = inv"
    by (simp add: collectInvalid_eq inv_def tagsWithoutFile_def)
  have ne': "inv \<noteq> []"
    using ne by (auto simp: inv_def tagsWithoutFile_def filter_empty_conv)
  have dm: "distinct (tags s)" using t by (rule keys_distinct_imp_distinct)
  have sub: "set inv \<subseteq> set (tags s)" and d: "distinct inv"
    using dm by (auto simp: inv_def tagsWithoutFile_def)
  have f: "fold (\<lambda>tag s'. snd (removeTag s' (tid tag))) inv s = storeWithout inv s"
    using t g d sub by (rule fold_removeTag_storeWithout)
  show "cleanupInvalidTags existsSync (Some DeleteAll) confirm s
           = (length (tagsWithoutFile existsSync s),
              storeWithout (tagsWithoutFile existsSync s) s,
              [AskCleanup (length (tagsWithoutFile existsSync s))])"
    using ne' by (simp add: cleanupInvalidTags_def Let_def c f inv_def[symmetric])
  show 2: "tags (storeWithout (tagsWithoutFile existsSync s) s)
           = filter (\<lambda>tag. existsSync (filePath tag)) (tags s)"
    by (auto simp: storeWithout_def tagsWithoutFile_def intro: filter_cong)
  show "length (tags (storeWithout (tagsWithoutFile existsSync s) s))
           + length (tagsWithoutFile existsSync s) = length (tags s)"
    unfolding 2
    using sum_length_filter_compl[of "\<lambda>tag. existsSync (filePath tag)" "tags s"]
    by (simp add: tagsWithoutFile_def)
qed

lemma cleanup_confirm_each:
  assumes t: "keys_distinct tid (tags s)" and g: "keys_distinct gid (groups s)"
    and ne: "\<exists>tag \<in> set (tags s). \<not> existsSync (filePath tag)"
  shows "cleanupInvalidTags existsSync (Some ConfirmEach) confirm s
           = (length (deletedBeforeCancel confirm (tagsWithoutFile existsSync s)),
              storeWithout (deletedBeforeCancel confirm (tagsWithoutFile existsSync s)) s,
              AskCleanup (length (tagsWithoutFile existsSync s)) #
              map AskDelete (askedUntilCancel confirm (tagsWithoutFile existsSync s)))"
    and "length (tags (storeWithout (deletedBeforeCancel confirm (tagsWithoutFile existsSync s)) s))
           + length (deletedBeforeCancel confirm (tagsWithoutFile existsSync s))
         = length (tags s)"
proof -
  define inv where "inv = tagsWithoutFile existsSync s"
  define del where "del = deletedBeforeCancel confirm inv"
  have c: "collectInvalid existsSync (tags s) [] = inv"
    by (simp add: collectInvalid_eq inv_def tagsWithoutFile_def)
  have ne': "inv \<noteq> []"
    using ne by (auto simp: inv_def tagsWithoutFile_def filter_empty_conv)
  have dm: "distinct (tags s)" using t by (rule keys_distinct_imp_distinct)
  have isub: "set inv \<subseteq> set (tags s)" and idist: "distinct inv"
    using dm by (auto simp: inv_def tagsWithoutFile_def)
  have sub: "set del \<subseteq> set (tags s)"
    using isub by (auto simp: del_def deletedBeforeCancel_def dest: set_takeWhileD)
  have d: "distinct del"
    using idist by (simp add: del_def deletedBeforeCancel_def distinct_takeWhile)
  have f: "fold (\<lambda>tag s'. snd (removeTag s' (tid tag))) del s = storeWithout del s"
    using t g d sub by (rule fold_removeTag_storeWithout)
  show "cleanupInvalidTags existsSync (Some ConfirmEach) confirm s
           = (length (deletedBeforeCancel confirm (tagsWithoutFile existsSync s)),
              storeWithout (deletedBeforeCancel confirm (tagsWithoutFile existsSync s)) s,
              AskCleanup (length (tagsWithoutFile existsSync s)) #
              map AskDelete (askedUntilCancel confirm (tagsWithoutFile existsSync s)))"
    using ne'
    by (simp add: cleanupInvalidTags_def Let_def c confirmEach_result del_def[symmetric] f
        inv_def[symmetric])
  have "length (filter (\<lambda>tag. tag \<notin> set del) (tags s)) + length del = length (tags s)"
    by (rule length_filter_removed[OF dm d sub])
  then show "length (tags (storeWithout (deletedBeforeCancel confirm (tagsWithoutFile existsSync s)) s))
           + length (deletedBeforeCancel confirm (tagsWithoutFile existsSync s))
         = length (tags s)"
    by (simp add: storeWithout_def del_def inv_def)
qed

lemma cleanup_other_answer:
  assumes ne: "\<exists>tag \<in> set (tags s). \<not> existsSync (filePath tag)"
    and "choice \<noteq> Some DeleteAll" and "choice \<noteq> Some ConfirmEach"
  shows "cleanupInvalidTags existsSync choice confirm s
           = (0, s, [AskCleanup (length (tagsWithoutFile existsSync s))])"
proof -
  have c: "collectInvalid existsSync (tags s) [] = tagsWithoutFile existsSync s"
    by (simp add: collectInvalid_eq tagsWithoutFile_def)
  have "tagsWithoutFile existsSync s \<noteq> []"
    using ne by (auto simp: tagsWithoutFile_def filter_empty_conv)
  with assms(2,3) show ?thesis
    by (simp add: cleanupInvalidTags_def Let_def c)
qed

lemma cleanup_nothing_invalid:
  assumes "\<forall>tag \<in> set (tags s). existsSync (filePath tag)"
  shows "cleanupInvalidTags existsSync choice confirm s = (0, s, [])"
proof -
  have "collectInvalid existsSync (tags s) [] = []"
    using assms by (simp add: collectInvalid_eq filter_empty_conv)
  then show ?thesis by (simp add: cleanupInvalidTags_def Let_def)
qed

text \<open>
  Claim C9. Let the tag list and the group list be \<^verbatim>\<open>Map\<close>s, with no key twice, and
  let \<open>n\<close> be the number of tags of the store whose file does not exist. When there
  is such a tag and the answer is \<open>DeleteAll\<close>, the call returns \<open>n\<close> and the store
  without these \<open>n\<close> tags: the tags left in the map are those whose file exists, and
  each removed tag is gone from the array of its group. When the answer is
  \<open>ConfirmEach\<close>, the tags without file are asked about in order up to the first
  answer \<open>Cancel\<close>, the call returns the number of tags answered \<open>Delete\<close> before it,
  and the store without exactly those tags. With any other answer, or none, the call
  returns 0 and the store unchanged. When every tag has its file, the call returns 0
  and the store unchanged and shows no prompt.
\<close>

theorem cleanupInvalidTags_results:
  assumes wf: "keys_distinct tid (tags s) \<and> keys_distinct gid (groups s)"
  shows "((\<exists>tag \<in> set (tags s). \<not> existsSync (filePath tag)) \<longrightarrow>
            cleanupInvalidTags existsSync (Some DeleteAll) confirm s
              = (length (tagsWithoutFile existsSync s),
                 storeWithout (tagsWithoutFile existsSync s) s,
                 [AskCleanup (length (tagsWithoutFile existsSync s))]) \<and>
            tags (storeWithout (tagsWithoutFile existsSync s) s)
              = filter (\<lambda>tag. existsSync (filePath tag)) (tags s) \<and>
            length (tags (storeWithout (tagsWithoutFile existsSync s) s))
              + length (tagsWithoutFile existsSync s) = length (tags s)) \<and>
         ((\<exists>tag \<in> set (tags s). \<not> existsSync (filePath tag)) \<longrightarrow>
            cleanupInvalidTags existsSync (Some ConfirmEach) confirm s
              = (length (deletedBeforeCancel confirm (tagsWithoutFile existsSync s)),
                 storeWithout (deletedBeforeCancel confirm (tagsWithoutFile existsSync s)) s,
                 AskCleanup (length (tagsWithoutFile existsSync s)) #
                 map AskDelete (askedUntilCancel confirm (tagsWithoutFile existsSync s))) \<and>
            length (tags (storeWithout
                (deletedBeforeCancel confirm (tagsWithoutFile existsSync s)) s))
              + length (deletedBeforeCancel confirm (tagsWithoutFile existsSync s))
              = length (tags s)) \<and>
         ((\<exists>tag \<in> set (tags s). \<not> existsSync (filePath tag)) \<and>
          choice \<noteq> Some DeleteAll \<and> choice \<noteq> Some ConfirmEach \<longrightarrow>
            cleanupInvalidTags existsSync choice confirm s
              = (0, s, [AskCleanup (length (tagsWithoutFile existsSync s))])) \<and>
         ((\<forall>tag \<in> set (tags s). existsSync (filePath tag)) \<longrightarrow>
            cleanupInvalidTags existsSync choice confirm s = (0, s, []))"
proof -
  from wf have t: "keys_distinct tid (tags s)" and g: "keys_distinct gid (groups s)"
    by simp_all
  show ?thesis
  proof (intro conjI impI)
    assume ne: "\<exists>tag \<in> set (tags s). \<not> existsSync (filePath tag)"
    show "cleanupInvalidTags existsSync (Some DeleteAll) confirm s
              = (length (tagsWithoutFile existsSync s),
                 storeWithout (tagsWithoutFile existsSync s) s,
                 [AskCleanup (length (tagsWithoutFile existsSync s))])"
      by (rule cleanup_delete_all(1)[OF t g ne])
    show "tags (storeWithout (tagsWithoutFile existsSync s) s)
              = filter (\<lambda>tag. existsSync (filePath tag)) (tags s)"
      by (rule cleanup_delete_all(2)[OF t g ne])
    show "length (tags (storeWithout (tagsWithoutFile existsSync s) s))
              + length (tagsWithoutFile existsSync s) = length (tags s)"
      by (rule cleanup_delete_all(3)[OF t g ne])
    show "cleanupInvalidTags existsSync (Some ConfirmEach) confirm s
              = (length (deletedBeforeCancel confirm (tagsWithoutFile existsSync s)),
                 storeWithout (deletedBeforeCancel confirm (tagsWithoutFile existsSync s)) s,
                 AskCleanup (length (tagsWithoutFile existsSync s)) #
                 map AskDelete (askedUntilCancel confirm (tagsWithoutFile existsSync s)))"
      by (rule cleanup_confirm_each(1)[OF t g ne])
    show "length (tags (storeWithout
                (deletedBeforeCancel confirm (tagsWithoutFile existsSync s)) s))
              + length (deletedBeforeCancel confirm (tagsWithoutFile existsSync s))
              = length (tags s)"
      by (rule cleanup_confirm_each(2)[OF t g ne])
  next
    assume "(\<exists>tag \<in> set (tags s). \<not> existsSync (filePath tag)) \<and>
          choice \<noteq> Some DeleteAll \<and> choice \<noteq> Some ConfirmEach"
    then show "cleanupInvalidTags existsSync choice confirm s
              = (0, s, [AskCleanup (length (tagsWithoutFile existsSync s))])"
      by (intro cleanup_other_answer) simp_all
  next
    assume "\<forall>tag \<in> set (tags s). existsSync (filePath tag)"
    then show "cleanupInvalidTags existsSync choice confirm s = (0, s, [])"
      by (rule cleanup_nothing_invalid)
  qed
qed

lemmas cleanup_defs =
  tagsWithoutFile_def storeWithout_def withoutTags_def deletedBeforeCancel_def
  askedUntilCancel_def onlyRouterExists_def deleteFirstThenCancel_def

theorem cleanupInvalidTags_results_witness:
  "keys_distinct tid (tags store3) \<and> keys_distinct gid (groups store3) \<and>
   tagsWithoutFile onlyRouterExists store3 = [tagLogin, tagNotes] \<and>
   cleanupInvalidTags onlyRouterExists (Some DeleteAll) deleteFirstThenCancel store3
     = (2,
        \<lparr>tags = [tagRouter],
         groups = [\<lparr>gid = ''g1'', gname = ''A'', gtags = [tagRouter]\<rparr>,
                   \<lparr>gid = ''g2'', gname = ''B'', gtags = []\<rparr>],
         useWorkspaceStorage = True\<rparr>,
        [AskCleanup 2]) \<and>
   cleanupInvalidTags onlyRouterExists (Some ConfirmEach) deleteFirstThenCancel store3
     = (1,
        \<lparr>tags = [tagRouter, tagNotes],
         groups = [\<lparr>gid = ''g1'', gname = ''A'', gtags = [tagRouter]\<rparr>, groupB],
         useWorkspaceStorage = True\<rparr>,
        [AskCleanup 2, AskDelete tagLogin, AskDelete tagNotes]) \<and>
   cleanupInvalidTags onlyRouterExists (Some Cancel) deleteFirstThenCancel store3
     = (0, store3, [AskCleanup 2]) \<and>
   cleanupInvalidTags (\<lambda>p. True) (Some DeleteAll) deleteFirstThenCancel store3
     = (0, store3, [])"
proof -
  have wf: "keys_distinct tid (tags store3) \<and> keys_distinct gid (groups store3)"
    by (simp add: keys_distinct_def example_defs)
  have ne: "\<exists>tag \<in> set (tags store3). \<not> onlyRouterExists (filePath tag)"
    by (simp add: onlyRouterExists_def example_defs)
  have all: "\<forall>tag \<in> set (tags store3). (\<lambda>p. True) (filePath tag)"
    by simp
  have other: "Some Cancel \<noteq> Some DeleteAll \<and> Some Cancel \<noteq> Some ConfirmEach"
    by simp
  have inv: "tagsWithoutFile onlyRouterExists store3 = [tagLogin, tagNotes]"
    by (simp add: cleanup_defs example_defs)
  have del: "deletedBeforeCancel deleteFirstThenCancel [tagLogin, tagNotes] = [tagLogin]"
    by (simp add: cleanup_defs example_defs)
  have asked: "askedUntilCancel deleteFirstThenCancel [tagLogin, tagNotes]
      = [tagLogin, tagNotes]"
    by (simp add: cleanup_defs example_defs)
  have s2: "storeWithout [tagLogin, tagNotes] store3
      = \<lparr>tags = [tagRouter],
         groups = [\<lparr>gid = ''g1'', gname = ''A'', gtags = [tagRouter]\<rparr>,
                   \<lparr>gid = ''g2'', gname = ''B'', gtags = []\<rparr>],
         useWorkspaceStorage = True\<rparr>"
    by (simp add: cleanup_defs example_defs)
  have s1: "storeWithout [tagLogin] store3
      = \<lparr>tags = [tagRouter, tagNotes],
         groups = [\<lparr>gid = ''g1'', gname = ''A'', gtags = [tagRouter]\<rparr>, groupB],
         useWorkspaceStorage = True\<rparr>"
    by (simp add: cleanup_defs example_defs)
  note T = cleanupInvalidTags_results
    [OF wf, of onlyRouterExists deleteFirstThenCancel "Some Cancel"]
  from T ne have "cleanupInvalidTags onlyRouterExists (Some DeleteAll) deleteFirstThenCancel store3
      = (length (tagsWithoutFile onlyRouterExists store3),
         storeWithout (tagsWithoutFile onlyRouterExists store3) store3,
         [AskCleanup (length (tagsWithoutFile onlyRouterExists store3))])"
    by blast
  then have a: "cleanupInvalidTags onlyRouterExists (Some DeleteAll) deleteFirstThenCancel store3
     = (2,
        \<lparr>tags = [tagRouter],
         groups = [\<lparr>gid = ''g1'', gname = ''A'', gtags = [tagRouter]\<rparr>,
                   \<lparr>gid = ''g2'', gname = ''B'', gtags = []\<rparr>],
         useWorkspaceStorage = True\<rparr>,
        [AskCleanup 2])"
    unfolding inv s2 by simp
  from T ne have "cleanupInvalidTags onlyRouterExists (Some ConfirmEach) deleteFirstThenCancel
      store3
      = (length (deletedBeforeCancel deleteFirstThenCancel
           (tagsWithoutFile onlyRouterExists store3)),
         storeWithout (deletedBeforeCancel deleteFirstThenCancel
           (tagsWithoutFile onlyRouterExists store3)) store3,
         AskCleanup (length (tagsWithoutFile onlyRouterExists store3)) #
         map AskDelete (askedUntilCancel deleteFirstThenCancel
           (tagsWithoutFile onlyRouterExists store3)))"
    by blast
  then have b: "cleanupInvalidTags onlyRouterExists (Some ConfirmEach) deleteFirstThenCancel
      store3
     = (1,
        \<lparr>tags = [tagRouter, tagNotes],
         groups = [\<lparr>gid = ''g1'', gname = ''A'', gtags = [tagRouter]\<rparr>, groupB],
         useWorkspaceStorage = True\<rparr>,
        [AskCleanup 2, AskDelete tagLogin, AskDelete tagNotes])"
    unfolding inv del asked s1 by simp
  from T ne other have "cleanupInvalidTags onlyRouterExists (Some Cancel) deleteFirstThenCancel
      store3 = (0, store3, [AskCleanup (length (tagsWithoutFile onlyRouterExists store3))])"
    by blast
  then have c: "cleanupInvalidTags onlyRouterExists (Some Cancel) deleteFirstThenCancel store3
     = (0, store3, [AskCleanup 2])"
    unfolding inv by simp
  from cleanupInvalidTags_results
    [OF wf, of "\<lambda>p. True" deleteFirstThenCancel "Some DeleteAll"] all
  have d: "cleanupInvalidTags (\<lambda>p. True) (Some DeleteAll) deleteFirstThenCancel store3
     = (0, store3, [])"
    by blast
  from wf inv a b c d show ?thesis by (intro conjI) simp_all
qed

end
